theory Spec2Isabelle
  imports Complex_Main
begin

section \<open>The data table\<close>

text \<open>
  The batch generator of \<^verbatim>\<open>scripts/batch_generator.py\<close> reads a table with named
  columns and walks over its rows with one cursor per batch slot. The table is modelled
  as the list of its column names and the list of its rows; a cell is a text or a number.
  Python exceptions are values of the type \<open>error\<close>; a function that may raise returns
  \<open>error + 'a\<close>, and a loop that may run forever returns an \<open>option\<close> on top of that,
  \<open>None\<close> meaning that it does not return.

  Numbers of the table and of the frames are rationals: the arithmetic of the code on them
  (\<^verbatim>\<open>abs(val - 1) / 2\<close>) is exact on the labels +1 and -1, with true and with integer
  division alike. The calls into pandas and numpy (\<^verbatim>\<open>loc\<close>, \<^verbatim>\<open>iloc\<close>, \<^verbatim>\<open>as_matrix\<close>,
  \<^verbatim>\<open>np.zeros\<close>, row assignment) behave as in the versions the code was written for.
\<close>

datatype error =
  RuntimeError | ValueError | KeyError | IndexError | TypeError
  | ZeroDivisionError | AssertionError

datatype cell = Str string | Num rat

record table =
  columns :: "string list"
  rows :: "cell list list"

text \<open>\<^verbatim>\<open>list.index\<close>: the first position of a value, \<open>None\<close> where Python raises ValueError.\<close>

fun index_of :: "string list \<Rightarrow> string \<Rightarrow> nat option" where
  "index_of [] a = None"
| "index_of (x # xs) a = (if x = a then Some 0 else map_option Suc (index_of xs a))"

text \<open>\<^verbatim>\<open>len(data)\<close>: the number of rows.\<close>

definition len :: "table \<Rightarrow> int" where
  "len d = int (length (rows d))"

text \<open>\<^verbatim>\<open>data.loc[idx, name]\<close>: label-based access; an unknown column name or a row label
  outside the range index raises KeyError.\<close>

definition loc :: "table \<Rightarrow> int \<Rightarrow> string \<Rightarrow> error + cell" where
  "loc d idx name =
     (case index_of (columns d) name of
        None \<Rightarrow> Inl KeyError
      | Some j \<Rightarrow> if 0 \<le> idx \<and> idx < len d then Inr (rows d ! nat idx ! j) else Inl KeyError)"

text \<open>\<^verbatim>\<open>data.iloc[idx, start:]\<close>: positional access; a negative row position counts from
  the end, a position outside the table raises IndexError, the column slice never raises.\<close>

definition iloc_from :: "table \<Rightarrow> int \<Rightarrow> int \<Rightarrow> error + cell list" where
  "iloc_from d idx start =
     (let n = len d; j = (if idx < 0 then n + idx else idx) in
      if 0 \<le> j \<and> j < n then
        (let r = rows d ! nat j in
         Inr (if start < 0 then drop (nat (int (length r) + start)) r else drop (nat start) r))
      else Inl IndexError)"

text \<open>Storing cells into a row of a float array: a text cell raises ValueError, and the
  shapes must agree (a single value is broadcast over the row).\<close>

fun to_floats :: "cell list \<Rightarrow> error + rat list" where
  "to_floats [] = Inr []"
| "to_floats (Str s # cs) = Inl ValueError"
| "to_floats (Num r # cs) = (case to_floats cs of Inl e \<Rightarrow> Inl e | Inr rs \<Rightarrow> Inr (r # rs))"

definition assign_row :: "int \<Rightarrow> rat list \<Rightarrow> error + rat list" where
  "assign_row n vs =
     (if int (length vs) = n then Inr vs
      else if length vs = 1 then Inr (replicate (nat n) (hd vs))
      else Inl ValueError)"

text \<open>\<^verbatim>\<open>range(n)\<close> as a list of slot numbers or of steps.\<close>

definition py_range :: "int \<Rightarrow> nat list" where
  "py_range n = [0..<nat n]"

section \<open>The engine and its batches\<close>

record engine =
  num_inputs :: int
  key_name :: string
  yval_name :: string
  factor_start_idx :: int
  num_classes :: int
  num_unrollings :: int
  batch_size :: int
  data :: table
  data_size :: int
  init_cursor :: "int list"
  cursor :: "int list"
  num_batches :: "int option"

record batch =
  inputs :: "rat list list list"
  targets :: "rat list list list"
  seq_lengths :: "int list"
  reset_flags :: "rat list"
  attribs :: "cell option list list"

subsection \<open>\<^verbatim>\<open>_get_reset_flags\<close>\<close>

fun reset_flags_loop :: "engine \<Rightarrow> nat list \<Rightarrow> rat list \<Rightarrow> error + rat list" where
  "reset_flags_loop st [] fl = Inr fl"
| "reset_flags_loop st (b # bs) fl =
     (if length (cursor st) \<le> b then Inl IndexError
      else
        let idx = cursor st ! b in
        if idx = 0 then reset_flags_loop st bs (fl[b := 0])
        else
          (case loc (data st) idx (key_name st) of
             Inl e \<Rightarrow> Inl e
           | Inr k \<Rightarrow>
               (case loc (data st) (idx - 1) (key_name st) of
                  Inl e \<Rightarrow> Inl e
                | Inr k' \<Rightarrow>
                    if k \<noteq> k' then reset_flags_loop st bs (fl[b := 0])
                    else reset_flags_loop st bs fl)))"

definition get_reset_flags :: "engine \<Rightarrow> error + rat list" where
  "get_reset_flags st =
     (if batch_size st < 0 then Inl ValueError
      else reset_flags_loop st (py_range (batch_size st)) (replicate (nat (batch_size st)) 1))"

subsection \<open>\<^verbatim>\<open>_next_step\<close>\<close>

text \<open>The test of line 194, \<^verbatim>\<open>step>0 and key[prev_idx] != key[idx]\<close>; the keys are read
  only when \<open>step > 0\<close>.\<close>

definition crossed :: "engine \<Rightarrow> nat \<Rightarrow> int \<Rightarrow> error + bool" where
  "crossed st step idx =
     (let prev_idx = (if idx > 0 then idx - 1 else data_size st - 1) in
      if step > 0 then
        (case loc (data st) prev_idx (key_name st) of
           Inl e \<Rightarrow> Inl e
         | Inr kp \<Rightarrow>
             (case loc (data st) idx (key_name st) of
                Inl e \<Rightarrow> Inl e
              | Inr k \<Rightarrow> Inr (kp \<noteq> k)))
      else Inr False)"

text \<open>The body of the loop over the slots (lines 192 to 209) for one slot, from the slot's
  cursor \<open>idx\<close> and its sequence length \<open>sl\<close>: the row of features, the row of targets,
  the attribute, the new sequence length and the new cursor.\<close>

definition slot_body ::
  "engine \<Rightarrow> nat \<Rightarrow> int \<Rightarrow> int \<Rightarrow> error + (rat list \<times> rat list \<times> cell option \<times> int \<times> int)" where
  "slot_body st step idx sl =
     (case crossed st step idx of
        Inl e \<Rightarrow> Inl e
      | Inr True \<Rightarrow>
          Inr (replicate (nat (num_inputs st)) 0, replicate (nat (num_classes st)) 0, None,
               (if sl = num_unrollings st then int step else sl), idx)
      | Inr False \<Rightarrow>
          (case iloc_from (data st) idx (factor_start_idx st) of
             Inl e \<Rightarrow> Inl e
           | Inr cs \<Rightarrow>
          (case to_floats cs of
             Inl e \<Rightarrow> Inl e
           | Inr vs \<Rightarrow>
          (case assign_row (num_inputs st) vs of
             Inl e \<Rightarrow> Inl e
           | Inr xr \<Rightarrow>
          (case loc (data st) idx (yval_name st) of
             Inl e \<Rightarrow> Inl e
           | Inr (Str s) \<Rightarrow> Inl TypeError
           | Inr (Num val) \<Rightarrow>
               if num_classes st < 2 then Inl IndexError
               else
                 (case (if ''date'' \<in> set (columns (data st))
                        then (case loc (data st) idx ''date'' of
                                Inl e \<Rightarrow> Inl e | Inr c \<Rightarrow> Inr (Some c))
                        else Inr None) of
                    Inl e \<Rightarrow> Inl e
                  | Inr a \<Rightarrow>
                      if data_size st = 0 then Inl ZeroDivisionError
                      else
                        Inr (xr,
                             (replicate (nat (num_classes st)) 0)
                               [0 := abs (val - 1) / 2, 1 := abs (val + 1) / 2],
                             a, sl, (idx + 1) mod data_size st)))))))"

text \<open>The loop over the slots: it reads and writes \<^verbatim>\<open>self._cursor[b]\<close> and
  \<^verbatim>\<open>seq_lengths[b]\<close>, fills row \<open>b\<close> of the two frames and appends to the attributes.\<close>

fun next_step_slots ::
  "nat list \<Rightarrow> nat \<Rightarrow> rat list list \<Rightarrow> rat list list \<Rightarrow> cell option list \<Rightarrow> int list \<Rightarrow> engine
   \<Rightarrow> error + (rat list list \<times> rat list list \<times> cell option list \<times> int list \<times> engine)" where
  "next_step_slots [] step x y attr sls st = Inr (x, y, attr, sls, st)"
| "next_step_slots (b # bs) step x y attr sls st =
     (if length (cursor st) \<le> b \<or> length sls \<le> b then Inl IndexError
      else
        (case slot_body st step (cursor st ! b) (sls ! b) of
           Inl e \<Rightarrow> Inl e
         | Inr (xr, yr, a, sl', idx') \<Rightarrow>
             next_step_slots bs step (x[b := xr]) (y[b := yr]) (attr @ [a]) (sls[b := sl'])
               (st\<lparr>cursor := (cursor st)[b := idx']\<rparr>)))"

definition next_step ::
  "engine \<Rightarrow> nat \<Rightarrow> int list
   \<Rightarrow> error + (rat list list \<times> rat list list \<times> cell option list \<times> int list \<times> engine)" where
  "next_step st step sls =
     (if batch_size st < 0 \<or> num_inputs st < 0 \<or> num_classes st < 0 then Inl ValueError
      else
        next_step_slots (py_range (batch_size st)) step
          (replicate (nat (batch_size st)) (replicate (nat (num_inputs st)) 0))
          (replicate (nat (batch_size st)) (replicate (nat (num_classes st)) 0))
          [] sls st)"

subsection \<open>\<^verbatim>\<open>next_batch\<close> and \<^verbatim>\<open>rewind\<close>\<close>

fun next_batch_steps ::
  "nat list \<Rightarrow> rat list list list \<Rightarrow> rat list list list \<Rightarrow> cell option list list \<Rightarrow> int list
   \<Rightarrow> engine
   \<Rightarrow> error + (rat list list list \<times> rat list list list \<times> cell option list list \<times> int list \<times> engine)"
  where
  "next_batch_steps [] xb yb ab sls st = Inr (xb, yb, ab, sls, st)"
| "next_batch_steps (i # is) xb yb ab sls st =
     (case next_step st i sls of
        Inl e \<Rightarrow> Inl e
      | Inr (x, y, attr, sls', st') \<Rightarrow>
          next_batch_steps is (xb @ [x]) (yb @ [y]) (ab @ [attr]) sls' st')"

definition next_batch :: "engine \<Rightarrow> error + (batch \<times> engine)" where
  "next_batch st =
     (if batch_size st < 0 then Inl ValueError
      else
        (case get_reset_flags st of
           Inl e \<Rightarrow> Inl e
         | Inr fl \<Rightarrow>
             (case next_batch_steps (py_range (num_unrollings st)) [] [] []
                     (replicate (nat (batch_size st)) (num_unrollings st)) st of
                Inl e \<Rightarrow> Inl e
              | Inr (xb, yb, ab, sls, st') \<Rightarrow>
                  Inr (\<lparr>inputs = xb, targets = yb, seq_lengths = sls, reset_flags = fl,
                        attribs = ab\<rparr>, st'))))"

definition rewind :: "engine \<Rightarrow> engine" where
  "rewind st = st\<lparr>cursor := init_cursor st\<rparr>"

definition num_data_points :: "engine \<Rightarrow> int" where
  "num_data_points st = data_size st"

subsection \<open>\<^verbatim>\<open>_calc_num_batches\<close>\<close>

partial_function (option) calc_loop ::
  "int \<Rightarrow> engine \<Rightarrow> int \<Rightarrow> (error + (int \<times> engine)) option" where
  "calc_loop end_idx st n =
     (if cursor st = [] then Some (Inl IndexError)
      else if hd (cursor st) < end_idx - num_unrollings st then
        (case next_batch st of
           Inl e \<Rightarrow> Some (Inl e)
         | Inr (bt, st') \<Rightarrow> calc_loop end_idx st' (n + 1))
      else Some (Inr (n, st)))"

declare calc_loop.simps [code]

definition calc_num_batches :: "engine \<Rightarrow> (error + (int \<times> engine)) option" where
  "calc_num_batches st =
     (let tmp_cursor = cursor st; st1 = rewind st in
      case (if batch_size st > 1
            then (if length (init_cursor st1) \<le> 1 then Inl IndexError
                  else Inr (init_cursor st1 ! 1))
            else Inr (data_size st1 - 1)) of
        Inl e \<Rightarrow> Some (Inl e)
      | Inr end_idx \<Rightarrow>
          (case calc_loop end_idx st1 0 of
             None \<Rightarrow> None
           | Some (Inl e) \<Rightarrow> Some (Inl e)
           | Some (Inr (n, st2)) \<Rightarrow> Some (Inr (n, st2\<lparr>cursor := tmp_cursor\<rparr>))))"

subsection \<open>\<^verbatim>\<open>__init__\<close>\<close>

text \<open>The scan of lines 143 to 146: forward, cyclically, while the key is the one the scan
  started on.\<close>

partial_function (option) align_loop ::
  "table \<Rightarrow> string \<Rightarrow> int \<Rightarrow> cell \<Rightarrow> int \<Rightarrow> (error + int) option" where
  "align_loop d kn sz key idx =
     (case loc d idx kn of
        Inl e \<Rightarrow> Some (Inl e)
      | Inr k \<Rightarrow>
          if k = key then
            (if sz = 0 then Some (Inl ZeroDivisionError)
             else align_loop d kn sz key ((idx + 1) mod sz))
          else Some (Inr idx))"

declare align_loop.simps [code]

fun align_all ::
  "table \<Rightarrow> string \<Rightarrow> int \<Rightarrow> nat list \<Rightarrow> int list \<Rightarrow> (error + int list) option" where
  "align_all d kn sz [] ic = Some (Inr ic)"
| "align_all d kn sz (b # bs) ic =
     (if length ic \<le> b then Some (Inl IndexError)
      else
        (case loc d (ic ! b) kn of
           Inl e \<Rightarrow> Some (Inl e)
         | Inr key \<Rightarrow>
             (case align_loop d kn sz key (ic ! b) of
                None \<Rightarrow> None
              | Some (Inl e) \<Rightarrow> Some (Inl e)
              | Some (Inr idx) \<Rightarrow> align_all d kn sz bs (if b > 0 then ic[b := idx] else ic))))"

text \<open>The constructor. The file system is a map from file names to tables as
  \<^verbatim>\<open>pd.read_csv\<close> returns them; a name that is no file raises RuntimeError.\<close>

definition construct ::
  "(string \<rightharpoonup> table) \<Rightarrow> string \<Rightarrow> string \<Rightarrow> string \<Rightarrow> int \<Rightarrow> int \<Rightarrow> int
   \<Rightarrow> (error + engine) option" where
  "construct fs filename key target ni bsz nu =
     (case fs filename of
        None \<Rightarrow> Some (Inl RuntimeError)
      | Some d \<Rightarrow>
          (case index_of (columns d) target of
             None \<Rightarrow> Some (Inl ValueError)
           | Some j \<Rightarrow>
               let fsi = int j + 1 in
               if \<not> fsi \<ge> 0 then Some (Inl AssertionError)
               else if \<not> int j < fsi then Some (Inl AssertionError)
               else if bsz = 0 then Some (Inl ZeroDivisionError)
               else
                 let segment = len d div bsz;
                     ic = map (\<lambda>offset. int offset * segment) (py_range bsz)
                 in
                 (case align_all d key (len d) (py_range bsz) ic of
                    None \<Rightarrow> None
                  | Some (Inl e) \<Rightarrow> Some (Inl e)
                  | Some (Inr ic') \<Rightarrow>
                      let st = \<lparr>num_inputs = ni, key_name = key, yval_name = target,
                                factor_start_idx = fsi, num_classes = 2, num_unrollings = nu,
                                batch_size = bsz, data = d, data_size = len d,
                                init_cursor = ic', cursor = ic', num_batches = None\<rparr>
                      in
                      (case calc_num_batches st of
                         None \<Rightarrow> None
                       | Some (Inl e) \<Rightarrow> Some (Inl e)
                       | Some (Inr (n, st')) \<Rightarrow> Some (Inr (st'\<lparr>num_batches := Some n\<rparr>))))))"

section \<open>Vocabulary of the properties\<close>

text \<open>A slot's cursor is at an entity's first record, as \<^verbatim>\<open>_get_reset_flags\<close> tests it
  (line 176): at index 0, or where the key of the record before differs.\<close>

definition at_entity_start :: "engine \<Rightarrow> int \<Rightarrow> bool" where
  "at_entity_start st idx \<longleftrightarrow>
     idx = 0 \<or> loc (data st) (idx - 1) (key_name st) \<noteq> loc (data st) idx (key_name st)"

text \<open>The key test of \<^verbatim>\<open>_next_step\<close> (lines 193 and 194): the key of the cyclically
  previous record differs from the key at \<open>idx\<close>.\<close>

definition is_boundary :: "engine \<Rightarrow> int \<Rightarrow> bool" where
  "is_boundary st idx \<longleftrightarrow>
     loc (data st) (if idx > 0 then idx - 1 else data_size st - 1) (key_name st)
       \<noteq> loc (data st) idx (key_name st)"

fun is_num :: "cell \<Rightarrow> bool" where
  "is_num (Num r) = True"
| "is_num (Str s) = False"

text \<open>A table that fits the configuration: both named columns exist, exactly \<open>ni\<close> columns
  follow the label column, every row has one cell per column, and the label and the
  feature cells are numbers.\<close>

definition table_ok :: "table \<Rightarrow> string \<Rightarrow> string \<Rightarrow> int \<Rightarrow> bool" where
  "table_ok d key target ni \<longleftrightarrow>
     key \<in> set (columns d) \<and>
     (case index_of (columns d) target of
        None \<Rightarrow> False
      | Some j \<Rightarrow>
          int (length (columns d)) = int j + 1 + ni \<and>
          (\<forall>r\<in>set (rows d).
             length r = length (columns d) \<and> is_num (r ! j) \<and>
             (\<forall>c\<in>set (drop (Suc j) r). is_num c)))"

text \<open>The table has at least two distinct entities: two rows differ in the key column.\<close>

definition two_entities :: "table \<Rightarrow> string \<Rightarrow> bool" where
  "two_entities d key \<longleftrightarrow>
     (case index_of (columns d) key of
        None \<Rightarrow> False
      | Some k \<Rightarrow> (\<exists>r\<in>set (rows d). \<exists>r'\<in>set (rows d). r ! k \<noteq> r' ! k))"

text \<open>A valid engine: the fields \<^verbatim>\<open>__init__\<close> sets agree with the table, there is one
  cursor per slot, and every cursor is an index of the table.\<close>

definition engine_ok :: "engine \<Rightarrow> bool" where
  "engine_ok st \<longleftrightarrow>
     table_ok (data st) (key_name st) (yval_name st) (num_inputs st) \<and>
     data_size st = len (data st) \<and> 0 < data_size st \<and>
     index_of (columns (data st)) (yval_name st) = Some (nat (factor_start_idx st - 1)) \<and>
     1 \<le> factor_start_idx st \<and>
     num_classes st = 2 \<and> 1 \<le> batch_size st \<and>
     length (cursor st) = nat (batch_size st) \<and>
     length (init_cursor st) = nat (batch_size st) \<and>
     (\<forall>c\<in>set (cursor st). 0 \<le> c \<and> c < data_size st) \<and>
     (\<forall>c\<in>set (init_cursor st). 0 \<le> c \<and> c < data_size st)"

text \<open>What a caller does with an engine: a sequence of calls, and \<open>n\<close> calls of
  \<^verbatim>\<open>next_batch\<close> in a row with the batches they return.\<close>

datatype call = NextBatch | Rewind

fun run_calls :: "call list \<Rightarrow> engine \<Rightarrow> error + engine" where
  "run_calls [] st = Inr st"
| "run_calls (NextBatch # cs) st =
     (case next_batch st of Inl e \<Rightarrow> Inl e | Inr (bt, st') \<Rightarrow> run_calls cs st')"
| "run_calls (Rewind # cs) st = run_calls cs (rewind st)"

fun next_batches :: "nat \<Rightarrow> engine \<Rightarrow> error + (batch list \<times> engine)" where
  "next_batches 0 st = Inr ([], st)"
| "next_batches (Suc n) st =
     (case next_batch st of
        Inl e \<Rightarrow> Inl e
      | Inr (bt, st') \<Rightarrow>
          (case next_batches n st' of
             Inl e \<Rightarrow> Inl e
           | Inr (bts, st'') \<Rightarrow> Inr (bt # bts, st'')))"

text \<open>One slot on its own: its cursor and its sequence length after the steps \<open>is\<close>
  (a step that raises leaves both as they are).\<close>

fun slot_steps :: "engine \<Rightarrow> nat list \<Rightarrow> int \<Rightarrow> int \<Rightarrow> int \<times> int" where
  "slot_steps st [] c sl = (c, sl)"
| "slot_steps st (i # is) c sl =
     (case slot_body st i c sl of
        Inl e \<Rightarrow> slot_steps st is c sl
      | Inr (xr, yr, a, sl', c') \<Rightarrow> slot_steps st is c' sl')"

text \<open>A slot that starts a batch at cursor \<open>c\<close> meets no entity boundary at the steps
  \<open>1, \<dots>, t - 1\<close>; it crosses an entity boundary at step \<open>t\<close> when \<open>t\<close> is the first step
  after step 0 at which the test of line 194 succeeds.\<close>

definition clear_run :: "engine \<Rightarrow> int \<Rightarrow> nat \<Rightarrow> bool" where
  "clear_run st c t \<longleftrightarrow>
     (\<forall>s\<in>{1..<t}. \<not> is_boundary st ((c + int s) mod data_size st))"

definition crosses_at :: "engine \<Rightarrow> int \<Rightarrow> nat \<Rightarrow> bool" where
  "crosses_at st c t \<longleftrightarrow>
     0 < t \<and> is_boundary st ((c + int t) mod data_size st) \<and> clear_run st c t"

subsection \<open>The example of the specification\<close>

text \<open>Entity A with three rows (labels +1, -1, -1) and entity B with two rows (labels
  +1, -1), one feature column.\<close>

definition ex_table :: table where
  "ex_table =
     \<lparr>columns = [''ID'', ''YY'', ''X1''],
      rows = [[Str ''A'', Num 1, Num 3], [Str ''A'', Num (- 1), Num 4],
              [Str ''A'', Num (- 1), Num 5], [Str ''B'', Num 1, Num 6],
              [Str ''B'', Num (- 1), Num 7]]\<rparr>"

definition ex_fs :: "string \<rightharpoonup> table" where
  "ex_fs = [''data.dat'' \<mapsto> ex_table]"

text \<open>The engine over the example with one slot and two unrollings, its cursor at \<open>c\<close>.\<close>

definition ex_engine :: "int \<Rightarrow> engine" where
  "ex_engine c =
     \<lparr>num_inputs = 1, key_name = ''ID'', yval_name = ''YY'', factor_start_idx = 2,
      num_classes = 2, num_unrollings = 2, batch_size = 1, data = ex_table, data_size = 5,
      init_cursor = [0], cursor = [c], num_batches = Some 1\<rparr>"

text \<open>The batch the example engine returns from cursor 2: the slot emits the last row of
  entity A and is padded at step 1.\<close>

definition ex_batch :: batch where
  "ex_batch =
     \<lparr>inputs = [[[5]], [[0]]], targets = [[[1, 0]], [[0, 0]]], seq_lengths = [1],
      reset_flags = [1], attribs = [[None], [None]]\<rparr>"

text \<open>The first batch of the example engine, from cursor 0.\<close>

definition ex_batch0 :: batch where
  "ex_batch0 =
     \<lparr>inputs = [[[3]], [[4]]], targets = [[[0, 1]], [[1, 0]]], seq_lengths = [2],
      reset_flags = [0], attribs = [[None], [None]]\<rparr>"

text \<open>The batch of the example engine from cursor 3: the two rows of entity B.\<close>

definition ex_batch3 :: batch where
  "ex_batch3 =
     \<lparr>inputs = [[[6]], [[7]]], targets = [[[0, 1]], [[1, 0]]], seq_lengths = [2],
      reset_flags = [0], attribs = [[None], [None]]\<rparr>"

section \<open>Properties\<close>

subsection \<open>The example, evaluated\<close>

lemma ex_next_batch: "next_batch (ex_engine 2) = Inr (ex_batch, ex_engine 3)"
  by code_simp


subsection \<open>Reset flags\<close>

lemma reset_flags_loop_result:
  "reset_flags_loop st bs fl = Inr fl' \<Longrightarrow> \<forall>b\<in>set bs. b < length fl \<Longrightarrow>
     length fl' = length fl \<and>
     (\<forall>b<length fl. fl' ! b =
        (if b \<in> set bs \<and> at_entity_start st (cursor st ! b) then 0 else fl ! b))"
proof (induction bs arbitrary: fl)
  case Nil
  then show ?case by simp
next
  case (Cons a bs)
  show ?case
  proof (cases "cursor st ! a = 0")
    case True
    with Cons.prems have "reset_flags_loop st bs (fl[a := 0]) = Inr fl'"
      by (simp split: if_splits)
    from Cons.IH [OF this] True Cons.prems(2) show ?thesis
      by (auto simp: at_entity_start_def nth_list_update)
  next
    case False
    with Cons.prems obtain k k' where
      k: "loc (data st) (cursor st ! a) (key_name st) = Inr k"
      and k': "loc (data st) (cursor st ! a - 1) (key_name st) = Inr k'"
      and r: "reset_flags_loop st bs (if k \<noteq> k' then fl[a := 0] else fl) = Inr fl'"
      by (auto simp: Let_def split: if_splits sum.splits)
    from Cons.IH [OF r] False k k' Cons.prems(2) show ?thesis
      by (auto simp: at_entity_start_def nth_list_update)
  qed
qed

lemma next_batch_reset_flags:
  assumes "next_batch st = Inr (bt, st')"
  shows "get_reset_flags st = Inr (reset_flags bt)"
  using assms by (auto simp: next_batch_def split: if_splits sum.splits)

subsection \<open>Calls change the cursor only\<close>

lemma next_step_slots_frame:
  "next_step_slots bs step x y attr sls st = Inr (x', y', attr', sls', st') \<Longrightarrow>
     st' = st\<lparr>cursor := cursor st'\<rparr>"
proof (induction bs arbitrary: x y attr sls st)
  case Nil
  then show ?case by simp
next
  case (Cons b bs)
  from Cons.prems obtain xr yr a sl' idx' where
    r: "next_step_slots bs step (x[b := xr]) (y[b := yr]) (attr @ [a]) (sls[b := sl'])
          (st\<lparr>cursor := (cursor st)[b := idx']\<rparr>) = Inr (x', y', attr', sls', st')"
    by (auto split: if_splits sum.splits)
  from Cons.IH [OF r] have "st' = st\<lparr>cursor := (cursor st)[b := idx']\<rparr>\<lparr>cursor := cursor st'\<rparr>" .
  then show ?case by simp
qed

lemma next_step_frame:
  "next_step st step sls = Inr (x', y', attr', sls', st') \<Longrightarrow> st' = st\<lparr>cursor := cursor st'\<rparr>"
  by (auto simp: next_step_def split: if_splits dest: next_step_slots_frame)

lemma next_batch_steps_frame:
  "next_batch_steps is xb yb ab sls st = Inr (xb', yb', ab', sls', st') \<Longrightarrow>
     st' = st\<lparr>cursor := cursor st'\<rparr>"
proof (induction "is" arbitrary: xb yb ab sls st)
  case Nil
  then show ?case by simp
next
  case (Cons i "is")
  from Cons.prems obtain x y attr sls1 st1 where
    s: "next_step st i sls = Inr (x, y, attr, sls1, st1)"
    and r: "next_batch_steps is (xb @ [x]) (yb @ [y]) (ab @ [attr]) sls1 st1
              = Inr (xb', yb', ab', sls', st')"
    by (auto split: sum.splits)
  from next_step_frame [OF s] have 1: "st1 = st\<lparr>cursor := cursor st1\<rparr>" .
  from Cons.IH [OF r] have "st' = st1\<lparr>cursor := cursor st'\<rparr>" .
  with 1 have "st' = st\<lparr>cursor := cursor st1\<rparr>\<lparr>cursor := cursor st'\<rparr>" by simp
  then show ?case by simp
qed

lemma next_batch_frame:
  "next_batch st = Inr (bt, st') \<Longrightarrow> st' = st\<lparr>cursor := cursor st'\<rparr>"
  by (auto simp: next_batch_def split: if_splits sum.splits dest: next_batch_steps_frame)

lemma calc_loop_frame_aux:
  assumes "calc_loop end_idx st n = Some r"
  shows "\<forall>m st'. r = Inr (m, st') \<longrightarrow> st' = st\<lparr>cursor := cursor st'\<rparr>"
  using assms
proof (induction rule: calc_loop.raw_induct[rotated 1, consumes 1])
  case (1 calc_loop' end_idx st n r)
  show ?case
  proof (cases "cursor st \<noteq> [] \<and> hd (cursor st) < end_idx - num_unrollings st")
    case False
    with 1(2) show ?thesis by (auto split: if_splits)
  next
    case True
    show ?thesis
    proof (cases "next_batch st")
      case (Inl e)
      with True 1(2) show ?thesis by auto
    next
      case (Inr p)
      obtain bt st1 where p: "p = (bt, st1)" by (cases p)
      with Inr True 1(2) have rec: "calc_loop' end_idx st1 (n + 1) = Some r" by auto
      from Inr p have "next_batch st = Inr (bt, st1)" by simp
      from next_batch_frame [OF this] have a: "st1 = st\<lparr>cursor := cursor st1\<rparr>" .
      show ?thesis
      proof (intro allI impI)
        fix m st' assume "r = Inr (m, st')"
        with 1(1) [OF rec] have "st' = st1\<lparr>cursor := cursor st'\<rparr>" by simp
        with a have "st' = st\<lparr>cursor := cursor st1\<rparr>\<lparr>cursor := cursor st'\<rparr>" by simp
        then show "st' = st\<lparr>cursor := cursor st'\<rparr>" by simp
      qed
    qed
  qed
qed

lemma calc_loop_frame:
  "calc_loop end_idx st n = Some (Inr (m, st')) \<Longrightarrow> st' = st\<lparr>cursor := cursor st'\<rparr>"
  using calc_loop_frame_aux by blast

lemma calc_num_batches_frame:
  assumes "calc_num_batches st = Some (Inr (n, st'))"
  shows "st' = st"
proof -
  from assms obtain end_idx st2 where
    l: "calc_loop end_idx (rewind st) 0 = Some (Inr (n, st2))"
    and s: "st' = st2\<lparr>cursor := cursor st\<rparr>"
    by (auto simp: calc_num_batches_def Let_def split: if_splits sum.splits option.splits)
  from calc_loop_frame [OF l] have "st2 = (rewind st)\<lparr>cursor := cursor st2\<rparr>" .
  then have "st2\<lparr>cursor := cursor st\<rparr> = st\<lparr>cursor := init_cursor st\<rparr>\<lparr>cursor := cursor st2\<rparr>\<lparr>cursor := cursor st\<rparr>"
    by (simp add: rewind_def)
  with s show ?thesis by simp
qed


text \<open>
  Claim C8. The probe of \<^verbatim>\<open>_calc_num_batches\<close> leaves the engine as it found it: when
  it returns, the cursor is the one saved before the probe and no other field has changed
  (at construction that cursor is \<open>init_cursor\<close>, see \<open>construct_SomeD\<close> below).
\<close>

theorem probe_restores_engine:
  assumes "calc_num_batches st = Some (Inr (n, st'))"
  shows "st' = st"
  using assms by (rule calc_num_batches_frame)

theorem probe_restores_engine_witness:
  "calc_num_batches (ex_engine 2) = Some (Inr (1, ex_engine 2))"
proof -
  have "map_option (map_sum id fst) (calc_num_batches (ex_engine 2)) = Some (Inr 1)"
    by code_simp
  then obtain st' where c: "calc_num_batches (ex_engine 2) = Some (Inr (1, st'))"
    by (cases "calc_num_batches (ex_engine 2)") (auto simp: map_sum_def split: sum.splits)
  from probe_restores_engine [OF c] c show ?thesis by simp
qed

subsection \<open>Construction and missing columns\<close>

lemma index_of_None: "index_of xs a = None \<longleftrightarrow> a \<notin> set xs"
  by (induction xs) auto

lemma index_of_Some: "index_of xs a = Some j \<Longrightarrow> j < length xs \<and> xs ! j = a"
  by (induction xs arbitrary: j) (auto split: if_splits)

lemma loc_missing: "name \<notin> set (columns d) \<Longrightarrow> loc d idx name = Inl KeyError"
  by (simp add: loc_def index_of_None [THEN iffD2])

lemma py_range_pos: "0 < n \<Longrightarrow> py_range n = 0 # [1..<nat n]"
  by (simp add: py_range_def upt_conv_Cons)

lemma py_range_neg: "n \<le> 0 \<Longrightarrow> py_range n = []"
  by (simp add: py_range_def)

lemma construct_missing_target:
  assumes "fs filename = Some d" and "target \<notin> set (columns d)"
  shows "construct fs filename key target ni bsz nu = Some (Inl ValueError)"
  using assms by (simp add: construct_def index_of_None [THEN iffD2])

lemma construct_missing_key:
  assumes "fs filename = Some d" and "target \<in> set (columns d)" and "key \<notin> set (columns d)"
  shows "construct fs filename key target ni bsz nu =
           Some (Inl (if bsz = 0 then ZeroDivisionError else if bsz < 0 then IndexError
                      else KeyError))"
proof -
  from assms(2) obtain j where j: "index_of (columns d) target = Some j"
    using index_of_None [of "columns d" target] by (cases "index_of (columns d) target") auto
  consider "bsz = 0" | "bsz < 0" | "0 < bsz" by linarith
  then show ?thesis
  proof cases
    case 1
    with assms(1) j show ?thesis by (simp add: construct_def)
  next
    case 2
    have "calc_loop e st 0 = Some (Inl IndexError)" if "cursor st = []" for e st
      using that by (subst calc_loop.simps) simp
    with 2 assms(1) j show ?thesis
      by (simp add: construct_def py_range_neg calc_num_batches_def rewind_def Let_def)
  next
    case 3
    with assms(1,3) j show ?thesis
      by (simp add: construct_def py_range_pos loc_missing Let_def)
  qed
qed

lemma construct_SomeD:
  assumes "construct fs filename key target ni bsz nu = Some (Inr e)"
  shows "\<exists>d j ic n. fs filename = Some d \<and> index_of (columns d) target = Some j \<and> bsz \<noteq> 0 \<and>
           align_all d key (len d) (py_range bsz)
             (map (\<lambda>offset. int offset * (len d div bsz)) (py_range bsz)) = Some (Inr ic) \<and>
           calc_num_batches
             \<lparr>num_inputs = ni, key_name = key, yval_name = target,
              factor_start_idx = int j + 1, num_classes = 2, num_unrollings = nu,
              batch_size = bsz, data = d, data_size = len d,
              init_cursor = ic, cursor = ic, num_batches = None\<rparr> = Some (Inr (n, 
             \<lparr>num_inputs = ni, key_name = key, yval_name = target,
              factor_start_idx = int j + 1, num_classes = 2, num_unrollings = nu,
              batch_size = bsz, data = d, data_size = len d,
              init_cursor = ic, cursor = ic, num_batches = None\<rparr>)) \<and>
           e = \<lparr>num_inputs = ni, key_name = key, yval_name = target,
              factor_start_idx = int j + 1, num_classes = 2, num_unrollings = nu,
              batch_size = bsz, data = d, data_size = len d,
              init_cursor = ic, cursor = ic, num_batches = Some n\<rparr>"
proof -
  from assms obtain d where d: "fs filename = Some d"
    by (auto simp: construct_def split: option.splits)
  from assms d obtain j where j: "index_of (columns d) target = Some j"
    by (auto simp: construct_def split: option.splits)
  from assms d j have b: "bsz \<noteq> 0"
    by (auto simp: construct_def split: if_splits)
  let ?ic0 = "map (\<lambda>offset. int offset * (len d div bsz)) (py_range bsz)"
  from assms d j b obtain ic where ic: "align_all d key (len d) (py_range bsz) ?ic0 = Some (Inr ic)"
    by (auto simp: construct_def Let_def split: option.splits sum.splits)
  let ?st = "\<lparr>num_inputs = ni, key_name = key, yval_name = target,
              factor_start_idx = int j + 1, num_classes = 2, num_unrollings = nu,
              batch_size = bsz, data = d, data_size = len d,
              init_cursor = ic, cursor = ic, num_batches = None\<rparr>"
  from assms d j b ic obtain n st' where c: "calc_num_batches ?st = Some (Inr (n, st'))"
    and e: "e = st'\<lparr>num_batches := Some n\<rparr>"
    by (auto simp: construct_def Let_def split: option.splits sum.splits)
  from calc_num_batches_frame [OF c] have "st' = ?st" .
  with d j b ic c e show ?thesis by simp
qed

text \<open>
  Claim C2. Construction fails, with an error returned to the caller, whenever the label
  column or the entity-id column is absent from the table. The feature block is by
  definition what follows the label column (line 123), so it cannot overlap or precede
  it: every engine that construction returns has its feature block start after the label
  column, and the assertions of lines 124 to 127 never fire.
\<close>

theorem construct_rejects_missing_columns:
  assumes "fs filename = Some d"
  shows "(target \<notin> set (columns d) \<longrightarrow>
            construct fs filename key target ni bsz nu = Some (Inl ValueError)) \<and>
         (target \<in> set (columns d) \<and> key \<notin> set (columns d) \<longrightarrow>
            construct fs filename key target ni bsz nu =
              Some (Inl (if bsz = 0 then ZeroDivisionError else if bsz < 0 then IndexError
                         else KeyError))) \<and>
         (\<forall>st. construct fs filename key target ni bsz nu = Some (Inr st) \<longrightarrow>
            key \<in> set (columns d) \<and>
            (\<exists>j. index_of (columns d) target = Some j \<and> int j < factor_start_idx st))"
proof (intro conjI impI allI)
  assume "target \<notin> set (columns d)"
  with assms show "construct fs filename key target ni bsz nu = Some (Inl ValueError)"
    by (rule construct_missing_target)
next
  assume "target \<in> set (columns d) \<and> key \<notin> set (columns d)"
  with assms show "construct fs filename key target ni bsz nu =
      Some (Inl (if bsz = 0 then ZeroDivisionError else if bsz < 0 then IndexError else KeyError))"
    by (simp add: construct_missing_key)
next
  fix st assume s: "construct fs filename key target ni bsz nu = Some (Inr st)"
  show "key \<in> set (columns d)"
  proof (rule ccontr)
    assume k: "key \<notin> set (columns d)"
    show False
    proof (cases "target \<in> set (columns d)")
      case True
      from construct_missing_key [where fs = fs and filename = filename, OF assms True k] s
      show False by simp
    next
      case False
      from construct_missing_target [where fs = fs and filename = filename, OF assms False] s
      show False by simp
    qed
  qed
  from construct_SomeD [OF s] assms
  show "\<exists>j. index_of (columns d) target = Some j \<and> int j < factor_start_idx st"
    by auto
qed

lemma ex_construct: "construct ex_fs ''data.dat'' ''ID'' ''YY'' 1 1 2 = Some (Inr (ex_engine 0))"
  by code_simp

theorem construct_rejects_missing_columns_witness:
  "ex_fs ''data.dat'' = Some ex_table \<and>
   ''label'' \<notin> set (columns ex_table) \<and>
   construct ex_fs ''data.dat'' ''ID'' ''label'' 1 1 2 = Some (Inl ValueError) \<and>
   ''YY'' \<in> set (columns ex_table) \<and> ''key'' \<notin> set (columns ex_table) \<and>
   construct ex_fs ''data.dat'' ''key'' ''YY'' 1 1 2 = Some (Inl KeyError) \<and>
   construct ex_fs ''data.dat'' ''ID'' ''YY'' 1 1 2 = Some (Inr (ex_engine 0)) \<and>
   ''ID'' \<in> set (columns ex_table) \<and>
   (\<exists>j. index_of (columns ex_table) ''YY'' = Some j \<and> int j < factor_start_idx (ex_engine 0))"
proof -
  have f: "ex_fs ''data.dat'' = Some ex_table"
    by (simp add: ex_fs_def)
  have c: "''label'' \<notin> set (columns ex_table)" "''YY'' \<in> set (columns ex_table)"
    "''key'' \<notin> set (columns ex_table)"
    by (simp_all add: ex_table_def)
  from construct_rejects_missing_columns
    [where fs = ex_fs and filename = "''data.dat''" and target = "''label''" and key = "''ID''"
       and ni = 1 and bsz = 1 and nu = 2, OF f] c
  have 1: "construct ex_fs ''data.dat'' ''ID'' ''label'' 1 1 2 = Some (Inl ValueError)"
    by simp
  from construct_rejects_missing_columns
    [where fs = ex_fs and filename = "''data.dat''" and target = "''YY''" and key = "''key''"
       and ni = 1 and bsz = 1 and nu = 2, OF f] c
  have 2: "construct ex_fs ''data.dat'' ''key'' ''YY'' 1 1 2 = Some (Inl KeyError)"
    by simp
  from construct_rejects_missing_columns
    [where fs = ex_fs and filename = "''data.dat''" and target = "''YY''" and key = "''ID''"
       and ni = 1 and bsz = 1 and nu = 2, OF f] ex_construct
  have 3: "''ID'' \<in> set (columns ex_table) \<and>
    (\<exists>j. index_of (columns ex_table) ''YY'' = Some j \<and> int j < factor_start_idx (ex_engine 0))"
    by simp
  from f c 1 2 3 ex_construct show ?thesis by simp
qed

subsection \<open>One step of one slot\<close>

lemma crossed_cursor_upd [simp]: "crossed (st\<lparr>cursor := cs\<rparr>) = crossed st"
  by (intro ext) (simp add: crossed_def cong: sum.case_cong)

lemma slot_body_cursor_upd [simp]: "slot_body (st\<lparr>cursor := cs\<rparr>) = slot_body st"
  by (intro ext)
    (simp add: slot_body_def cong: sum.case_cong bool.case_cong cell.case_cong if_cong)

lemma is_boundary_cursor_upd [simp]: "is_boundary (st\<lparr>cursor := cs\<rparr>) = is_boundary st"
  by (intro ext) (simp add: is_boundary_def)

lemma slot_steps_cursor_upd [simp]:
  "slot_steps (st\<lparr>cursor := cs\<rparr>) is c sl = slot_steps st is c sl"
  by (induction "is" arbitrary: c sl) (simp_all cong: sum.case_cong prod.case_cong)

lemma slot_steps_append:
  "slot_steps st (as @ bs) c sl =
     (case slot_steps st as c sl of (c', sl') \<Rightarrow> slot_steps st bs c' sl')"
  by (induction as arbitrary: c sl) (auto split: sum.splits)

lemma loc_in_range:
  assumes "index_of (columns d) name = Some j" and "0 \<le> idx" and "idx < len d"
  shows "loc d idx name = Inr (rows d ! nat idx ! j)"
  using assms by (simp add: loc_def)

lemma to_floats_nums:
  "\<forall>c\<in>set cs. is_num c \<Longrightarrow> \<exists>vs. to_floats cs = Inr vs \<and> length vs = length cs"
proof (induction cs)
  case Nil
  then show ?case by simp
next
  case (Cons c cs)
  then obtain vs where "to_floats cs = Inr vs" "length vs = length cs" by auto
  with Cons.prems show ?case by (cases c) auto
qed

lemma index_of_mem: "a \<in> set xs \<Longrightarrow> \<exists>j. index_of xs a = Some j"
  using index_of_None [of xs a] by (cases "index_of xs a") auto

text \<open>What a valid engine gives at an index of the table.\<close>

lemma engine_ok_key:
  assumes "engine_ok st" and "0 \<le> idx" and "idx < data_size st"
  shows "\<exists>k. loc (data st) idx (key_name st) = Inr k"
proof -
  from assms(1) have "key_name st \<in> set (columns (data st))"
    by (simp add: engine_ok_def table_ok_def)
  then obtain j where "index_of (columns (data st)) (key_name st) = Some j"
    using index_of_mem by blast
  moreover from assms have "idx < len (data st)" by (simp add: engine_ok_def)
  ultimately show ?thesis using assms(2) by (simp add: loc_in_range)
qed

lemma engine_ok_crossed:
  assumes "engine_ok st" and "0 \<le> idx" and "idx < data_size st"
  shows "crossed st step idx = Inr (step > 0 \<and> is_boundary st idx)"
proof -
  let ?p = "if idx > 0 then idx - 1 else data_size st - 1"
  from assms have "0 \<le> ?p" "?p < data_size st" by auto
  from engine_ok_key [OF assms(1) this] obtain kp where
    kp: "loc (data st) ?p (key_name st) = Inr kp" ..
  from engine_ok_key [OF assms] obtain k where k: "loc (data st) idx (key_name st) = Inr k" ..
  from kp k show ?thesis
    by (auto simp: crossed_def is_boundary_def Let_def)
qed

lemma slot_body_padded:
  assumes "engine_ok st" and "0 \<le> idx" and "idx < data_size st"
    and "step > 0" and "is_boundary st idx"
  shows "slot_body st step idx sl =
           Inr (replicate (nat (num_inputs st)) 0, [0, 0], None,
                (if sl = num_unrollings st then int step else sl), idx)"
proof -
  from assms(1) have "num_classes st = 2" by (simp add: engine_ok_def)
  then have "replicate (nat (num_classes st)) (0::rat) = [0, 0]"
    by (simp add: numeral_2_eq_2)
  with engine_ok_crossed [OF assms(1-3), of step] assms(4,5) show ?thesis
    by (simp add: slot_body_def)
qed

lemma slot_body_record:
  assumes "engine_ok st" and "0 \<le> idx" and "idx < data_size st"
    and "\<not> (step > 0 \<and> is_boundary st idx)"
  shows "\<exists>xr a v. slot_body st step idx sl =
             Inr (xr, [abs (v - 1) / 2, abs (v + 1) / 2], a, sl, (idx + 1) mod data_size st) \<and>
           loc (data st) idx (yval_name st) = Inr (Num v) \<and> length xr = nat (num_inputs st)"
proof -
  let ?d = "data st"
  let ?j = "nat (factor_start_idx st - 1)"
  from assms(1) have j: "index_of (columns ?d) (yval_name st) = Some ?j"
    and f1: "1 \<le> factor_start_idx st" and nc: "num_classes st = 2"
    and sz: "data_size st = len ?d" "0 < data_size st"
    and t: "table_ok ?d (key_name st) (yval_name st) (num_inputs st)"
    by (simp_all add: engine_ok_def)
  from assms(2,3) sz have n: "nat idx < length (rows ?d)" by (simp add: len_def)
  then have r: "rows ?d ! nat idx \<in> set (rows ?d)" by simp
  let ?r = "rows ?d ! nat idx"
  from t j r have lr: "length ?r = length (columns ?d)" and ln: "is_num (?r ! ?j)"
    and fn: "\<forall>c\<in>set (drop (Suc ?j) ?r). is_num c"
    and nc': "int (length (columns ?d)) = int ?j + 1 + num_inputs st"
    by (auto simp: table_ok_def)
  from f1 have sj: "nat (factor_start_idx st) = Suc ?j" by simp
  from assms(2,3) sz f1 have il: "iloc_from ?d idx (factor_start_idx st) = Inr (drop (Suc ?j) ?r)"
    by (simp add: iloc_from_def Let_def sj)
  from to_floats_nums [OF fn] obtain vs where
    vs: "to_floats (drop (Suc ?j) ?r) = Inr vs" "length vs = length (drop (Suc ?j) ?r)" by blast
  from index_of_Some [OF j] have jl: "?j < length (columns ?d)" by simp
  from vs(2) lr nc' jl have lv: "int (length vs) = num_inputs st" by simp
  then have ar: "assign_row (num_inputs st) vs = Inr vs" by (simp add: assign_row_def)
  from ln obtain v where v: "?r ! ?j = Num v" by (cases "?r ! ?j") auto
  from j assms(2,3) sz v have lv': "loc ?d idx (yval_name st) = Inr (Num v)"
    by (simp add: loc_in_range)
  have "\<exists>a. (if ''date'' \<in> set (columns ?d)
              then (case loc ?d idx ''date'' of Inl e \<Rightarrow> Inl e | Inr c \<Rightarrow> Inr (Some c))
              else Inr None) = Inr a"
  proof (cases "''date'' \<in> set (columns ?d)")
    case True
    then obtain jd where "index_of (columns ?d) ''date'' = Some jd"
      using index_of_mem by blast
    with assms(2,3) sz True show ?thesis by (simp add: loc_in_range)
  next
    case False
    then show ?thesis by simp
  qed
  then obtain a where a: "(if ''date'' \<in> set (columns ?d)
              then (case loc ?d idx ''date'' of Inl e \<Rightarrow> Inl e | Inr c \<Rightarrow> Inr (Some c))
              else Inr None) = Inr a" ..
  have y: "(replicate (nat (num_classes st)) (0::rat))[0 := abs (v - 1) / 2, 1 := abs (v + 1) / 2]
             = [abs (v - 1) / 2, abs (v + 1) / 2]"
    by (simp add: nc numeral_2_eq_2)
  from engine_ok_crossed [OF assms(1-3), of step] assms(4)
  have c: "crossed st step idx = Inr False" by auto
  have "slot_body st step idx sl =
      Inr (vs, [abs (v - 1) / 2, abs (v + 1) / 2], a, sl, (idx + 1) mod data_size st)"
    unfolding slot_body_def using c il vs(1) ar lv' a y nc sz(2) by simp
  with lv' lv show ?thesis by auto
qed

subsection \<open>The loops over the slots and over the steps\<close>

lemma slot_body_ok:
  assumes "engine_ok st" and "0 \<le> idx" and "idx < data_size st"
  shows "\<exists>xr yr a sl' c'. slot_body st step idx sl = Inr (xr, yr, a, sl', c') \<and>
           0 \<le> c' \<and> c' < data_size st"
proof (cases "step > 0 \<and> is_boundary st idx")
  case True
  with slot_body_padded [OF assms, of step sl] assms(2,3) show ?thesis by simp
next
  case False
  from assms(1) have "0 < data_size st" by (simp add: engine_ok_def)
  with slot_body_record [OF assms False, of sl] show ?thesis by auto
qed

lemma engine_ok_cursor_upd:
  assumes "engine_ok st" and "length cs = nat (batch_size st)"
    and "\<forall>c\<in>set cs. 0 \<le> c \<and> c < data_size st"
  shows "engine_ok (st\<lparr>cursor := cs\<rparr>)"
  using assms unfolding engine_ok_def by auto

lemma engine_ok_cursor_nth:
  assumes "engine_ok st" and "b < nat (batch_size st)"
  shows "0 \<le> cursor st ! b \<and> cursor st ! b < data_size st"
proof -
  from assms have "cursor st ! b \<in> set (cursor st)" by (simp add: engine_ok_def)
  with assms(1) show ?thesis unfolding engine_ok_def by blast
qed

lemma next_step_slots_result:
  assumes "distinct bs"
    and "\<forall>b\<in>set bs. b < length (cursor st) \<and> b < length sls \<and> b < length x \<and> b < length y"
    and "\<forall>b\<in>set bs. slot_body st step (cursor st ! b) (sls ! b) = Inr (f b)"
  shows "\<exists>x' y' attr' sls' cur'.
           next_step_slots bs step x y attr sls st =
             Inr (x', y', attr', sls', st\<lparr>cursor := cur'\<rparr>) \<and>
           length x' = length x \<and> length y' = length y \<and> length sls' = length sls \<and>
           length cur' = length (cursor st) \<and>
           attr' = attr @ map (\<lambda>b. fst (snd (snd (f b)))) bs \<and>
           (\<forall>b\<in>set bs. x' ! b = fst (f b) \<and> y' ! b = fst (snd (f b)) \<and>
              sls' ! b = fst (snd (snd (snd (f b)))) \<and> cur' ! b = snd (snd (snd (snd (f b))))) \<and>
           (\<forall>b. b \<notin> set bs \<longrightarrow> x' ! b = x ! b \<and> y' ! b = y ! b \<and> sls' ! b = sls ! b \<and>
              cur' ! b = cursor st ! b)"
  using assms
proof (induction bs arbitrary: x y attr sls st)
  case Nil
  show ?case
    by (intro exI [of _ x] exI [of _ y] exI [of _ attr] exI [of _ sls] exI [of _ "cursor st"])
      simp
next
  case (Cons b bs)
  obtain xr yr a sl' idx' where fb: "f b = (xr, yr, a, sl', idx')"
    by (metis prod_cases5)
  let ?st1 = "st\<lparr>cursor := (cursor st)[b := idx']\<rparr>"
  let ?sls1 = "sls[b := sl']"
  from Cons.prems have bn: "b \<notin> set bs" and d: "distinct bs"
    and bl: "b < length (cursor st)" "b < length sls" "b < length x" "b < length y"
    and sb: "slot_body st step (cursor st ! b) (sls ! b) = Inr (xr, yr, a, sl', idx')"
    by (auto simp: fb)
  have l: "\<forall>b'\<in>set bs. b' < length (cursor ?st1) \<and> b' < length ?sls1 \<and>
             b' < length (x[b := xr]) \<and> b' < length (y[b := yr])"
    using Cons.prems(2) by simp
  have s: "\<forall>b'\<in>set bs. slot_body ?st1 step (cursor ?st1 ! b') (?sls1 ! b') = Inr (f b')"
  proof
    fix b' assume b': "b' \<in> set bs"
    with bn have "b' \<noteq> b" by auto
    then have "cursor ?st1 ! b' = cursor st ! b'" "?sls1 ! b' = sls ! b'" by simp_all
    with Cons.prems(3) b' show "slot_body ?st1 step (cursor ?st1 ! b') (?sls1 ! b') = Inr (f b')"
      by simp
  qed
  from Cons.IH [OF d l s, of "attr @ [a]"] obtain x' y' attr' sls' cur' where
    r: "next_step_slots bs step (x[b := xr]) (y[b := yr]) (attr @ [a]) ?sls1 ?st1 =
          Inr (x', y', attr', sls', ?st1\<lparr>cursor := cur'\<rparr>)"
    and len: "length x' = length x" "length y' = length y" "length sls' = length sls"
      "length cur' = length (cursor st)"
    and at: "attr' = (attr @ [a]) @ map (\<lambda>b. fst (snd (snd (f b)))) bs"
    and ins: "\<forall>b\<in>set bs. x' ! b = fst (f b) \<and> y' ! b = fst (snd (f b)) \<and>
              sls' ! b = fst (snd (snd (snd (f b)))) \<and> cur' ! b = snd (snd (snd (snd (f b))))"
    and outs: "\<forall>b'. b' \<notin> set bs \<longrightarrow> x' ! b' = (x[b := xr]) ! b' \<and> y' ! b' = (y[b := yr]) ! b' \<and>
              sls' ! b' = ?sls1 ! b' \<and> cur' ! b' = cursor ?st1 ! b'"
    by auto
  have e: "next_step_slots (b # bs) step x y attr sls st =
      Inr (x', y', attr', sls', st\<lparr>cursor := cur'\<rparr>)"
    using bl sb r by simp
  have atb: "attr' = attr @ map (\<lambda>b. fst (snd (snd (f b)))) (b # bs)"
    using at fb by simp
  have inb: "x' ! b = fst (f b) \<and> y' ! b = fst (snd (f b)) \<and>
      sls' ! b = fst (snd (snd (snd (f b)))) \<and> cur' ! b = snd (snd (snd (snd (f b))))"
    using outs bn bl fb by simp
  have outb: "\<forall>b'. b' \<notin> set (b # bs) \<longrightarrow> x' ! b' = x ! b' \<and> y' ! b' = y ! b' \<and>
      sls' ! b' = sls ! b' \<and> cur' ! b' = cursor st ! b'"
    using outs by simp
  from e len atb inb ins outb show ?case
    by (intro exI [of _ x'] exI [of _ y'] exI [of _ attr'] exI [of _ sls'] exI [of _ cur']) simp
qed

lemma next_step_result:
  assumes ok: "engine_ok st" and ls: "length sls = nat (batch_size st)"
  shows "\<exists>x y attr sls' cur'.
           next_step st step sls = Inr (x, y, attr, sls', st\<lparr>cursor := cur'\<rparr>) \<and>
           length sls' = nat (batch_size st) \<and> engine_ok (st\<lparr>cursor := cur'\<rparr>) \<and>
           (\<forall>b<nat (batch_size st).
              slot_body st step (cursor st ! b) (sls ! b) =
                Inr (x ! b, y ! b, attr ! b, sls' ! b, cur' ! b))"
proof -
  let ?B = "nat (batch_size st)"
  let ?f = "\<lambda>b. projr (slot_body st step (cursor st ! b) (sls ! b))"
  let ?x = "replicate ?B (replicate (nat (num_inputs st)) (0::rat))"
  let ?y = "replicate ?B (replicate (nat (num_classes st)) (0::rat))"
  from ok have lc: "length (cursor st) = ?B" and b1: "1 \<le> batch_size st"
    and nc: "num_classes st = 2"
    and t: "table_ok (data st) (key_name st) (yval_name st) (num_inputs st)"
    and j: "index_of (columns (data st)) (yval_name st) = Some (nat (factor_start_idx st - 1))"
    by (simp_all add: engine_ok_def)
  from ok have f1: "1 \<le> factor_start_idx st" by (simp add: engine_ok_def)
  from t j index_of_Some [OF j] f1 have ni: "0 \<le> num_inputs st"
    by (auto simp: table_ok_def)
  have f: "\<forall>b\<in>set (py_range (batch_size st)).
             slot_body st step (cursor st ! b) (sls ! b) = Inr (?f b)"
  proof
    fix b assume "b \<in> set (py_range (batch_size st))"
    then have "b < ?B" by (simp add: py_range_def)
    from engine_ok_cursor_nth [OF ok this]
    have "0 \<le> cursor st ! b" "cursor st ! b < data_size st" by simp_all
    from slot_body_ok [OF ok this, of step "sls ! b"]
    show "slot_body st step (cursor st ! b) (sls ! b) = Inr (?f b)" by auto
  qed
  have d: "distinct (py_range (batch_size st))" by (simp add: py_range_def)
  have l: "\<forall>b\<in>set (py_range (batch_size st)).
             b < length (cursor st) \<and> b < length sls \<and> b < length ?x \<and> b < length ?y"
    using lc ls by (simp add: py_range_def)
  from next_step_slots_result [OF d l f, of "[]"] obtain x' y' attr' sls' cur' where
    r: "next_step_slots (py_range (batch_size st)) step ?x ?y [] sls st =
          Inr (x', y', attr', sls', st\<lparr>cursor := cur'\<rparr>)"
    and len: "length sls' = length sls" "length cur' = length (cursor st)"
    and at: "attr' = map (\<lambda>b. fst (snd (snd (?f b)))) (py_range (batch_size st))"
    and ins: "\<forall>b\<in>set (py_range (batch_size st)). x' ! b = fst (?f b) \<and>
              y' ! b = fst (snd (?f b)) \<and> sls' ! b = fst (snd (snd (snd (?f b)))) \<and>
              cur' ! b = snd (snd (snd (snd (?f b))))"
    by (elim exE conjE) simp
  have e: "next_step st step sls = Inr (x', y', attr', sls', st\<lparr>cursor := cur'\<rparr>)"
    using r b1 ni nc by (simp add: next_step_def)
  have p: "\<forall>b<?B. slot_body st step (cursor st ! b) (sls ! b) =
              Inr (x' ! b, y' ! b, attr' ! b, sls' ! b, cur' ! b)"
  proof (intro allI impI)
    fix b assume b: "b < ?B"
    then have m: "b \<in> set (py_range (batch_size st))" by (simp add: py_range_def)
    from b have "attr' ! b = fst (snd (snd (?f b)))"
      by (simp add: at py_range_def)
    with ins m have 2: "?f b = (x' ! b, y' ! b, attr' ! b, sls' ! b, cur' ! b)"
      by (simp add: prod_eq_iff)
    from f m have 1: "slot_body st step (cursor st ! b) (sls ! b) = Inr (?f b)" by blast
    show "slot_body st step (cursor st ! b) (sls ! b) =
              Inr (x' ! b, y' ! b, attr' ! b, sls' ! b, cur' ! b)"
      by (subst 1) (simp only: 2)
  qed
  have cr: "\<forall>c\<in>set cur'. 0 \<le> c \<and> c < data_size st"
  proof
    fix c assume "c \<in> set cur'"
    then obtain b where b: "b < ?B" and c: "c = cur' ! b"
      using len lc by (auto simp: in_set_conv_nth)
    from engine_ok_cursor_nth [OF ok b]
    have "0 \<le> cursor st ! b" "cursor st ! b < data_size st" by simp_all
    from slot_body_ok [OF ok this, of step "sls ! b"] p b c
    show "0 \<le> c \<and> c < data_size st" by auto
  qed
  from len lc have "length cur' = ?B" by simp
  from engine_ok_cursor_upd [OF ok this cr] have "engine_ok (st\<lparr>cursor := cur'\<rparr>)" .
  with e len ls p show ?thesis
    by (intro exI [of _ x'] exI [of _ y'] exI [of _ attr'] exI [of _ sls'] exI [of _ cur'])
      simp
qed

lemma next_batch_steps_result:
  assumes "engine_ok st" and "length sls = nat (batch_size st)"
  shows "\<exists>X Y A sls' cur'.
           next_batch_steps ts xb yb ab sls st =
             Inr (xb @ X, yb @ Y, ab @ A, sls', st\<lparr>cursor := cur'\<rparr>) \<and>
           length X = length ts \<and> length Y = length ts \<and> length A = length ts \<and>
           length sls' = nat (batch_size st) \<and> engine_ok (st\<lparr>cursor := cur'\<rparr>) \<and>
           (\<forall>b<nat (batch_size st).
              slot_steps st ts (cursor st ! b) (sls ! b) = (cur' ! b, sls' ! b)) \<and>
           (\<forall>k<length ts. \<forall>b<nat (batch_size st). \<exists>sl' c'.
              slot_body st (ts ! k)
                (fst (slot_steps st (take k ts) (cursor st ! b) (sls ! b)))
                (snd (slot_steps st (take k ts) (cursor st ! b) (sls ! b))) =
                Inr (X ! k ! b, Y ! k ! b, A ! k ! b, sl', c'))"
  using assms
proof (induction ts arbitrary: xb yb ab sls st)
  case Nil
  show ?case
    by (intro exI [of _ "[]"] exI [of _ sls] exI [of _ "cursor st"]) (simp add: Nil)
next
  case (Cons i ts)
  let ?B = "nat (batch_size st)"
  from next_step_result [OF Cons.prems, of i] obtain x y attr sls1 cur1 where
    s: "next_step st i sls = Inr (x, y, attr, sls1, st\<lparr>cursor := cur1\<rparr>)"
    and l1: "length sls1 = ?B" and ok1: "engine_ok (st\<lparr>cursor := cur1\<rparr>)"
    and p1: "\<forall>b<?B. slot_body st i (cursor st ! b) (sls ! b) =
                Inr (x ! b, y ! b, attr ! b, sls1 ! b, cur1 ! b)"
    by blast
  let ?st1 = "st\<lparr>cursor := cur1\<rparr>"
  from l1 have l1': "length sls1 = nat (batch_size ?st1)" by simp
  from Cons.IH [OF ok1 l1', of "xb @ [x]" "yb @ [y]" "ab @ [attr]"]
  obtain X Y A sls' cur' where
    r: "next_batch_steps ts (xb @ [x]) (yb @ [y]) (ab @ [attr]) sls1 ?st1 =
          Inr ((xb @ [x]) @ X, (yb @ [y]) @ Y, (ab @ [attr]) @ A, sls', ?st1\<lparr>cursor := cur'\<rparr>)"
    and len: "length X = length ts" "length Y = length ts" "length A = length ts"
      "length sls' = ?B"
    and ok': "engine_ok (?st1\<lparr>cursor := cur'\<rparr>)"
    and fin: "\<forall>b<?B. slot_steps st ts (cur1 ! b) (sls1 ! b) = (cur' ! b, sls' ! b)"
    and cells: "\<forall>k<length ts. \<forall>b<?B. \<exists>sl' c'.
              slot_body st (ts ! k)
                (fst (slot_steps st (take k ts) (cur1 ! b) (sls1 ! b)))
                (snd (slot_steps st (take k ts) (cur1 ! b) (sls1 ! b))) =
                Inr (X ! k ! b, Y ! k ! b, A ! k ! b, sl', c')"
    by (elim exE conjE) simp
  have e: "next_batch_steps (i # ts) xb yb ab sls st =
      Inr (xb @ (x # X), yb @ (y # Y), ab @ (attr # A), sls', st\<lparr>cursor := cur'\<rparr>)"
    using s r by simp
  have fin': "\<forall>b<?B. slot_steps st (i # ts) (cursor st ! b) (sls ! b) = (cur' ! b, sls' ! b)"
    using p1 fin by simp
  have cells': "\<forall>k<length (i # ts). \<forall>b<?B. \<exists>sl' c'.
              slot_body st ((i # ts) ! k)
                (fst (slot_steps st (take k (i # ts)) (cursor st ! b) (sls ! b)))
                (snd (slot_steps st (take k (i # ts)) (cursor st ! b) (sls ! b))) =
                Inr ((x # X) ! k ! b, (y # Y) ! k ! b, (attr # A) ! k ! b, sl', c')"
  proof (intro allI impI)
    fix k b assume k: "k < length (i # ts)" and b: "b < ?B"
    show "\<exists>sl' c'.
              slot_body st ((i # ts) ! k)
                (fst (slot_steps st (take k (i # ts)) (cursor st ! b) (sls ! b)))
                (snd (slot_steps st (take k (i # ts)) (cursor st ! b) (sls ! b))) =
                Inr ((x # X) ! k ! b, (y # Y) ! k ! b, (attr # A) ! k ! b, sl', c')"
    proof (cases k)
      case 0
      with p1 b show ?thesis by simp
    next
      case (Suc k')
      with k have "k' < length ts" by simp
      with cells b Suc p1 show ?thesis by simp
    qed
  qed
  from ok' have ok'': "engine_ok (st\<lparr>cursor := cur'\<rparr>)" by simp
  from e len ok'' fin' cells' show ?case
    by (intro exI [of _ "x # X"] exI [of _ "y # Y"] exI [of _ "attr # A"] exI [of _ sls']
        exI [of _ cur']) simp
qed

subsection \<open>One slot through a batch\<close>

lemma clear_run_cursor_upd [simp]: "clear_run (st\<lparr>cursor := cs\<rparr>) = clear_run st"
  by (intro ext) (simp add: clear_run_def)

lemma crosses_at_cursor_upd [simp]: "crosses_at (st\<lparr>cursor := cs\<rparr>) = crosses_at st"
  by (intro ext) (simp add: crosses_at_def)

lemma clear_run_Suc:
  "clear_run st c (Suc t) \<longleftrightarrow>
     clear_run st c t \<and> (0 < t \<longrightarrow> \<not> is_boundary st ((c + int t) mod data_size st))"
proof (cases "t = 0")
  case True
  then show ?thesis by (simp add: clear_run_def)
next
  case False
  then have "{1..<Suc t} = insert t {1..<t}" by auto
  with False show ?thesis by (auto simp: clear_run_def)
qed

text \<open>The state of one slot after the steps \<open>0, \<dots>, t - 1\<close> of a batch.\<close>

lemma slot_run:
  assumes ok: "engine_ok st" and c: "0 \<le> c" "c < data_size st"
    and t: "int t \<le> num_unrollings st"
  shows "(clear_run st c t \<and>
            slot_steps st [0..<t] c (num_unrollings st) =
              ((c + int t) mod data_size st, num_unrollings st)) \<or>
         (\<exists>L<t. crosses_at st c L \<and>
            slot_steps st [0..<t] c (num_unrollings st) =
              ((c + int L) mod data_size st, int L))"
  using t
proof (induction t)
  case 0
  from c show ?case by (simp add: clear_run_def)
next
  case (Suc t)
  let ?n = "data_size st"
  let ?U = "num_unrollings st"
  from ok have n: "0 < ?n" by (simp add: engine_ok_def)
  from Suc.prems have t: "int t \<le> ?U" "int t < ?U" by simp_all
  have app: "slot_steps st [0..<Suc t] c ?U =
      (case slot_steps st [0..<t] c ?U of (c', sl') \<Rightarrow> slot_steps st [t] c' sl')"
    using slot_steps_append [of st "[0..<t]" "[t]" c ?U] by simp
  from Suc.IH [OF t(1)] show ?case
  proof (elim disjE exE conjE)
    assume cl: "clear_run st c t"
      and s: "slot_steps st [0..<t] c ?U = ((c + int t) mod ?n, ?U)"
    let ?ct = "(c + int t) mod ?n"
    from n have r: "0 \<le> ?ct" "?ct < ?n" by simp_all
    show ?thesis
    proof (cases "0 < t \<and> is_boundary st ?ct")
      case True
      with slot_body_padded [OF ok r, of t ?U]
      have "slot_steps st [t] ?ct ?U = (?ct, int t)" by simp
      with app s have "slot_steps st [0..<Suc t] c ?U = (?ct, int t)" by simp
      moreover from True cl have "crosses_at st c t" by (simp add: crosses_at_def)
      ultimately show ?thesis by blast
    next
      case False
      from slot_body_record [OF ok r False, of ?U]
      have "slot_steps st [t] ?ct ?U = ((?ct + 1) mod ?n, ?U)" by auto
      moreover have "(?ct + 1) mod ?n = (c + int (Suc t)) mod ?n"
      proof -
        have "(?ct + 1) mod ?n = (c + int t + 1) mod ?n" by (rule mod_add_left_eq)
        also have "c + int t + 1 = c + int (Suc t)" by simp
        finally show ?thesis .
      qed
      ultimately have "slot_steps st [0..<Suc t] c ?U = ((c + int (Suc t)) mod ?n, ?U)"
        using app s by simp
      moreover from False cl have "clear_run st c (Suc t)" by (auto simp: clear_run_Suc)
      ultimately show ?thesis by blast
    qed
  next
    fix L assume L: "L < t" and cr: "crosses_at st c L"
      and s: "slot_steps st [0..<t] c ?U = ((c + int L) mod ?n, int L)"
    let ?cL = "(c + int L) mod ?n"
    from n have r: "0 \<le> ?cL" "?cL < ?n" by simp_all
    from L have t0: "0 < t" by simp
    from cr have b: "is_boundary st ?cL" by (simp add: crosses_at_def)
    from L t have "int L \<noteq> ?U" by simp
    with slot_body_padded [OF ok r t0 b, of "int L"]
    have "slot_steps st [t] ?cL (int L) = (?cL, int L)" by simp
    with app s have "slot_steps st [0..<Suc t] c ?U = (?cL, int L)" by simp
    with L cr show ?thesis by (intro disjI2 exI [of _ L]) simp
  qed
qed






lemma reset_flags_loop_ok:
  assumes "engine_ok st" and "\<forall>b\<in>set bs. b < nat (batch_size st)"
  shows "\<exists>fl'. reset_flags_loop st bs fl = Inr fl'"
  using assms(2)
proof (induction bs arbitrary: fl)
  case Nil
  then show ?case by simp
next
  case (Cons b bs)
  then have b: "b < nat (batch_size st)" by simp
  from assms(1) b have lb: "\<not> length (cursor st) \<le> b" by (simp add: engine_ok_def)
  from engine_ok_cursor_nth [OF assms(1) b]
  have r: "0 \<le> cursor st ! b" "cursor st ! b < data_size st" by simp_all
  show ?case
  proof (cases "cursor st ! b = 0")
    case True
    with lb Cons show ?thesis by simp
  next
    case False
    with r have r': "0 \<le> cursor st ! b - 1" "cursor st ! b - 1 < data_size st" by simp_all
    from engine_ok_key [OF assms(1) r] obtain k where
      k: "loc (data st) (cursor st ! b) (key_name st) = Inr k" ..
    from engine_ok_key [OF assms(1) r'] obtain k' where
      k': "loc (data st) (cursor st ! b - 1) (key_name st) = Inr k'" ..
    from Cons lb False k k' show ?thesis by (simp add: Let_def)
  qed
qed

lemma next_batch_result:
  assumes ok: "engine_ok st"
  shows "\<exists>bt cur'.
           next_batch st = Inr (bt, st\<lparr>cursor := cur'\<rparr>) \<and> engine_ok (st\<lparr>cursor := cur'\<rparr>) \<and>
           (\<forall>b<nat (batch_size st).
              slot_steps st [0..<nat (num_unrollings st)] (cursor st ! b) (num_unrollings st) =
                (cur' ! b, seq_lengths bt ! b)) \<and>
           (\<forall>k<nat (num_unrollings st). \<forall>b<nat (batch_size st). \<exists>sl' c'.
              slot_body st k
                (fst (slot_steps st [0..<k] (cursor st ! b) (num_unrollings st)))
                (snd (slot_steps st [0..<k] (cursor st ! b) (num_unrollings st))) =
                Inr (inputs bt ! k ! b, targets bt ! k ! b, attribs bt ! k ! b, sl', c'))"
proof -
  let ?B = "nat (batch_size st)"
  let ?U = "num_unrollings st"
  let ?sls = "replicate ?B ?U"
  from ok have b1: "1 \<le> batch_size st" by (simp add: engine_ok_def)
  have "\<exists>fl. get_reset_flags st = Inr fl"
    using reset_flags_loop_ok [OF ok, of "py_range (batch_size st)"] b1
    by (simp add: get_reset_flags_def py_range_def)
  then obtain fl where fl: "get_reset_flags st = Inr fl" ..
  have ls: "length ?sls = ?B" by simp
  from next_batch_steps_result [OF ok ls, of "py_range ?U" "[]" "[]" "[]"]
  obtain X Y A sls' cur' where
    r: "next_batch_steps (py_range ?U) [] [] [] ?sls st = Inr (X, Y, A, sls', st\<lparr>cursor := cur'\<rparr>)"
    and ok': "engine_ok (st\<lparr>cursor := cur'\<rparr>)"
    and fin: "\<forall>b<?B. slot_steps st (py_range ?U) (cursor st ! b) (?sls ! b) = (cur' ! b, sls' ! b)"
    and cells: "\<forall>k<length (py_range ?U). \<forall>b<?B. \<exists>sl' c'.
              slot_body st (py_range ?U ! k)
                (fst (slot_steps st (take k (py_range ?U)) (cursor st ! b) (?sls ! b)))
                (snd (slot_steps st (take k (py_range ?U)) (cursor st ! b) (?sls ! b))) =
                Inr (X ! k ! b, Y ! k ! b, A ! k ! b, sl', c')"
    by (elim exE conjE) simp
  let ?bt = "\<lparr>inputs = X, targets = Y, seq_lengths = sls', reset_flags = fl, attribs = A\<rparr>"
  have e: "next_batch st = Inr (?bt, st\<lparr>cursor := cur'\<rparr>)"
    using b1 fl r by (simp add: next_batch_def)
  have fin': "\<forall>b<?B. slot_steps st [0..<nat ?U] (cursor st ! b) ?U = (cur' ! b, seq_lengths ?bt ! b)"
    using fin by (simp add: py_range_def)
  have cells': "\<forall>k<nat ?U. \<forall>b<?B. \<exists>sl' c'.
              slot_body st k
                (fst (slot_steps st [0..<k] (cursor st ! b) ?U))
                (snd (slot_steps st [0..<k] (cursor st ! b) ?U)) =
                Inr (inputs ?bt ! k ! b, targets ?bt ! k ! b, attribs ?bt ! k ! b, sl', c')"
  proof (intro allI impI)
    fix k b assume k: "k < nat ?U" and b: "b < ?B"
    then have "take k (py_range ?U) = [0..<k]" "py_range ?U ! k = k"
      by (simp_all add: py_range_def take_upt)
    with cells k b show "\<exists>sl' c'.
              slot_body st k
                (fst (slot_steps st [0..<k] (cursor st ! b) ?U))
                (snd (slot_steps st [0..<k] (cursor st ! b) ?U)) =
                Inr (inputs ?bt ! k ! b, targets ?bt ! k ! b, attribs ?bt ! k ! b, sl', c')"
      by (simp add: py_range_def)
  qed
  from e ok' fin' cells' show ?thesis
    by (intro exI [of _ ?bt] exI [of _ cur']) simp
qed

subsection \<open>Batches of a valid engine\<close>

lemma next_batch_slot:
  assumes ok: "engine_ok st" and nb: "next_batch st = Inr (bt, st')"
    and b: "b < nat (batch_size st)"
  shows "slot_steps st [0..<nat (num_unrollings st)] (cursor st ! b) (num_unrollings st) =
           (cursor st' ! b, seq_lengths bt ! b)"
    and "k < nat (num_unrollings st) \<Longrightarrow> \<exists>sl' c'.
           slot_body st k
             (fst (slot_steps st [0..<k] (cursor st ! b) (num_unrollings st)))
             (snd (slot_steps st [0..<k] (cursor st ! b) (num_unrollings st))) =
             Inr (inputs bt ! k ! b, targets bt ! k ! b, attribs bt ! k ! b, sl', c')"
proof -
  from next_batch_result [OF ok] obtain bt0 cur' where
    e: "next_batch st = Inr (bt0, st\<lparr>cursor := cur'\<rparr>)"
    and fin: "\<forall>b<nat (batch_size st).
              slot_steps st [0..<nat (num_unrollings st)] (cursor st ! b) (num_unrollings st) =
                (cur' ! b, seq_lengths bt0 ! b)"
    and cells: "\<forall>k<nat (num_unrollings st). \<forall>b<nat (batch_size st). \<exists>sl' c'.
              slot_body st k
                (fst (slot_steps st [0..<k] (cursor st ! b) (num_unrollings st)))
                (snd (slot_steps st [0..<k] (cursor st ! b) (num_unrollings st))) =
                Inr (inputs bt0 ! k ! b, targets bt0 ! k ! b, attribs bt0 ! k ! b, sl', c')"
    by (elim exE conjE) simp
  from e nb have eq: "bt0 = bt" "st' = st\<lparr>cursor := cur'\<rparr>" by simp_all
  from fin b eq show "slot_steps st [0..<nat (num_unrollings st)] (cursor st ! b) (num_unrollings st) =
           (cursor st' ! b, seq_lengths bt ! b)" by simp
  assume "k < nat (num_unrollings st)"
  with cells b eq show "\<exists>sl' c'.
           slot_body st k
             (fst (slot_steps st [0..<k] (cursor st ! b) (num_unrollings st)))
             (snd (slot_steps st [0..<k] (cursor st ! b) (num_unrollings st))) =
             Inr (inputs bt ! k ! b, targets bt ! k ! b, attribs bt ! k ! b, sl', c')" by simp
qed









subsection \<open>Valid constructions and sequences of calls\<close>

lemma loc_InrD:
  assumes "loc d idx name = Inr c"
  shows "0 \<le> idx \<and> idx < len d \<and> name \<in> set (columns d)"
proof -
  from assms obtain j where j: "index_of (columns d) name = Some j"
    by (cases "index_of (columns d) name") (auto simp: loc_def)
  with assms have "0 \<le> idx \<and> idx < len d" by (auto simp: loc_def split: if_splits)
  moreover from index_of_Some [OF j] have "name \<in> set (columns d)" by auto
  ultimately show ?thesis by simp
qed

lemma align_loop_result_aux:
  assumes "align_loop d kn sz key idx = Some r"
  shows "\<forall>i. r = Inr i \<longrightarrow> 0 \<le> i \<and> i < len d \<and> loc d i kn \<noteq> Inr key"
  using assms
proof (induction rule: align_loop.raw_induct[rotated 1, consumes 1])
  case (1 align_loop' d kn sz key idx r)
  show ?case
  proof (cases "loc d idx kn")
    case (Inl e)
    with 1(2) show ?thesis by auto
  next
    case (Inr k)
    show ?thesis
    proof (cases "k = key")
      case True
      with Inr 1(2) have "sz = 0 \<and> r = Inl ZeroDivisionError \<or>
          align_loop' d kn sz key ((idx + 1) mod sz) = Some r"
        by (auto split: if_splits)
      with 1(1) show ?thesis by auto
    next
      case False
      with Inr 1(2) have "r = Inr idx" by simp
      with loc_InrD [OF Inr] Inr False show ?thesis by simp
    qed
  qed
qed

lemma align_loop_result:
  "align_loop d kn sz key idx = Some (Inr i) \<Longrightarrow> 0 \<le> i \<and> i < len d"
  using align_loop_result_aux by blast

lemma align_all_result:
  assumes "align_all d kn sz bs ic = Some (Inr ic')"
  shows "length ic' = length ic \<and>
         (\<forall>b<length ic. (b \<in> set bs \<and> 0 < b \<longrightarrow> 0 \<le> ic' ! b \<and> ic' ! b < len d) \<and>
                        (b \<notin> set bs \<or> b = 0 \<longrightarrow> ic' ! b = ic ! b)) \<and>
         (0 \<in> set bs \<longrightarrow> 0 \<le> ic ! 0 \<and> ic ! 0 < len d \<and> kn \<in> set (columns d))"
  using assms
proof (induction bs arbitrary: ic)
  case Nil
  then show ?case by simp
next
  case (Cons b bs)
  from Cons.prems have bl: "b < length ic"
    by (auto split: if_splits)
  with Cons.prems obtain key where key: "loc d (ic ! b) kn = Inr key"
    by (cases "loc d (ic ! b) kn") auto
  with Cons.prems bl obtain idx where
    al: "align_loop d kn sz key (ic ! b) = Some (Inr idx)"
    and r: "align_all d kn sz bs (if b > 0 then ic[b := idx] else ic) = Some (Inr ic')"
    by (auto split: option.splits sum.splits)
  let ?ic1 = "if b > 0 then ic[b := idx] else ic"
  from align_loop_result [OF al] have ir: "0 \<le> idx" "idx < len d" by simp_all
  from Cons.IH [OF r] have
    len: "length ic' = length ?ic1"
    and pt: "\<forall>b'<length ?ic1.
        (b' \<in> set bs \<and> 0 < b' \<longrightarrow> 0 \<le> ic' ! b' \<and> ic' ! b' < len d) \<and>
        (b' \<notin> set bs \<or> b' = 0 \<longrightarrow> ic' ! b' = ?ic1 ! b')"
    and z: "0 \<in> set bs \<longrightarrow> 0 \<le> ?ic1 ! 0 \<and> ?ic1 ! 0 < len d \<and> kn \<in> set (columns d)"
    by simp_all
  have l1: "length ?ic1 = length ic" by simp
  have 1: "length ic' = length ic" using len by simp
  have 2: "\<forall>b'<length ic.
        (b' \<in> set (b # bs) \<and> 0 < b' \<longrightarrow> 0 \<le> ic' ! b' \<and> ic' ! b' < len d) \<and>
        (b' \<notin> set (b # bs) \<or> b' = 0 \<longrightarrow> ic' ! b' = ic ! b')"
  proof (intro allI impI)
    fix b' assume b': "b' < length ic"
    with pt l1 have p: "(b' \<in> set bs \<and> 0 < b' \<longrightarrow> 0 \<le> ic' ! b' \<and> ic' ! b' < len d) \<and>
        (b' \<notin> set bs \<or> b' = 0 \<longrightarrow> ic' ! b' = ?ic1 ! b')" by simp
    show "(b' \<in> set (b # bs) \<and> 0 < b' \<longrightarrow> 0 \<le> ic' ! b' \<and> ic' ! b' < len d) \<and>
        (b' \<notin> set (b # bs) \<or> b' = 0 \<longrightarrow> ic' ! b' = ic ! b')"
    proof (cases "b' \<in> set bs")
      case True
      with p show ?thesis by (cases "b' = 0") auto
    next
      case False
      with p have e: "ic' ! b' = ?ic1 ! b'" by simp
      show ?thesis
      proof (cases "b' = b")
        case True
        with e bl ir show ?thesis by (cases "0 < b") auto
      next
        case False
        with e \<open>b' \<notin> set bs\<close> show ?thesis by auto
      qed
    qed
  qed
  have 3: "0 \<in> set (b # bs) \<longrightarrow> 0 \<le> ic ! 0 \<and> ic ! 0 < len d \<and> kn \<in> set (columns d)"
  proof (cases "b = 0")
    case True
    with loc_InrD [OF key] show ?thesis by simp
  next
    case False
    with z show ?thesis by auto
  qed
  from 1 2 3 show ?case by blast
qed

lemma construct_negative:
  assumes "fs filename = Some d" and "index_of (columns d) target = Some j" and "bsz < 0"
  shows "construct fs filename key target ni bsz nu = Some (Inl IndexError)"
proof -
  have "calc_loop e st 0 = Some (Inl IndexError)" if "cursor st = []" for e st
    using that by (subst calc_loop.simps) simp
  with assms show ?thesis
    by (simp add: construct_def py_range_neg calc_num_batches_def rewind_def Let_def)
qed

lemma construct_engine_ok:
  assumes c: "construct fs filename key target ni bsz nu = Some (Inr e)"
    and f: "fs filename = Some d" and t: "table_ok d key target ni"
  shows "engine_ok e \<and> data e = d \<and> cursor e = init_cursor e \<and> num_unrollings e = nu \<and>
         batch_size e = bsz \<and> data_size e = len d \<and> key_name e = key"
proof -
  let ?ic0 = "map (\<lambda>offset. int offset * (len d div bsz)) (py_range bsz)"
  from construct_SomeD [OF c] f obtain j ic n where
    j: "index_of (columns d) target = Some j" and b0: "bsz \<noteq> 0"
    and al: "align_all d key (len d) (py_range bsz) ?ic0 = Some (Inr ic)"
    and e: "e = \<lparr>num_inputs = ni, key_name = key, yval_name = target,
              factor_start_idx = int j + 1, num_classes = 2, num_unrollings = nu,
              batch_size = bsz, data = d, data_size = len d,
              init_cursor = ic, cursor = ic, num_batches = Some n\<rparr>"
    by auto
  have b1: "1 \<le> bsz"
  proof (rule ccontr)
    assume "\<not> 1 \<le> bsz"
    with b0 have "bsz < 0" by simp
    from construct_negative [where fs = fs and filename = filename, OF f j this] c
    show False by simp
  qed
  then have z: "0 \<in> set (py_range bsz)" and l0: "length ?ic0 = nat bsz" and i0: "?ic0 ! 0 = 0"
    by (simp_all add: py_range_def nth_map_upt)
  from align_all_result [OF al] l0 z i0 have
    len: "length ic = nat bsz"
    and pt: "\<forall>b<nat bsz. (b \<in> set (py_range bsz) \<and> 0 < b \<longrightarrow> 0 \<le> ic ! b \<and> ic ! b < len d) \<and>
                        (b \<notin> set (py_range bsz) \<or> b = 0 \<longrightarrow> ic ! b = ?ic0 ! b)"
    and n: "0 < len d"
    by simp_all
  have r: "\<forall>c\<in>set ic. 0 \<le> c \<and> c < len d"
  proof
    fix c assume "c \<in> set ic"
    then obtain b where b: "b < nat bsz" "c = ic ! b"
      using len by (auto simp: in_set_conv_nth)
    show "0 \<le> c \<and> c < len d"
    proof (cases "b = 0")
      case True
      with pt b i0 n show ?thesis by simp
    next
      case False
      with pt b show ?thesis by (simp add: py_range_def)
    qed
  qed
  from e t j n b1 len r show ?thesis
    by (simp add: engine_ok_def)
qed

lemma rewind_ok: "engine_ok st \<Longrightarrow> engine_ok (rewind st)"
  unfolding rewind_def engine_ok_def by auto

lemma run_calls_frame:
  "run_calls cs st = Inr st' \<Longrightarrow> st' = st\<lparr>cursor := cursor st'\<rparr>"
proof (induction cs arbitrary: st)
  case Nil
  then show ?case by simp
next
  case (Cons c cs)
  show ?case
  proof (cases c)
    case NextBatch
    with Cons.prems obtain bt st1 where
      nb: "next_batch st = Inr (bt, st1)" and r: "run_calls cs st1 = Inr st'"
      by (auto split: sum.splits)
    from next_batch_frame [OF nb] have "st1 = st\<lparr>cursor := cursor st1\<rparr>" .
    moreover from Cons.IH [OF r] have "st' = st1\<lparr>cursor := cursor st'\<rparr>" .
    ultimately have "st' = st\<lparr>cursor := cursor st1\<rparr>\<lparr>cursor := cursor st'\<rparr>" by simp
    then show ?thesis by simp
  next
    case Rewind
    with Cons.prems have r: "run_calls cs (rewind st) = Inr st'" by simp
    from Cons.IH [OF r] have "st' = (rewind st)\<lparr>cursor := cursor st'\<rparr>" .
    then show ?thesis by (simp add: rewind_def)
  qed
qed

lemma run_calls_ok:
  "engine_ok st \<Longrightarrow> \<exists>st'. run_calls cs st = Inr st' \<and> engine_ok st'"
proof (induction cs arbitrary: st)
  case Nil
  then show ?case by simp
next
  case (Cons c cs)
  show ?case
  proof (cases c)
    case NextBatch
    from next_batch_result [OF Cons.prems] obtain bt cur' where
      "next_batch st = Inr (bt, st\<lparr>cursor := cur'\<rparr>)" "engine_ok (st\<lparr>cursor := cur'\<rparr>)"
      by blast
    with Cons.IH [of "st\<lparr>cursor := cur'\<rparr>"] NextBatch show ?thesis by simp
  next
    case Rewind
    with Cons.IH [OF rewind_ok [OF Cons.prems]] show ?thesis by simp
  qed
qed

lemma next_batches_ok:
  "engine_ok st \<Longrightarrow> \<exists>bts st'. next_batches n st = Inr (bts, st') \<and> length bts = n"
proof (induction n arbitrary: st)
  case 0
  then show ?case by simp
next
  case (Suc n)
  from next_batch_result [OF Suc.prems] obtain bt cur' where
    nb: "next_batch st = Inr (bt, st\<lparr>cursor := cur'\<rparr>)" and ok: "engine_ok (st\<lparr>cursor := cur'\<rparr>)"
    by blast
  from Suc.IH [OF ok] obtain bts st' where
    "next_batches n (st\<lparr>cursor := cur'\<rparr>) = Inr (bts, st')" "length bts = n" by blast
  with nb show ?case by simp
qed

lemma next_batch_cursor_move:
  assumes ok: "engine_ok st" and nb: "next_batch st = Inr (bt, st')"
    and b: "b < nat (batch_size st)"
  shows "cursor st' ! b = (cursor st ! b + max 0 (seq_lengths bt ! b)) mod data_size st \<and>
         max 0 (seq_lengths bt ! b) \<le> max 0 (num_unrollings st)"
proof -
  let ?c = "cursor st ! b"
  let ?U = "num_unrollings st"
  from engine_ok_cursor_nth [OF ok b] have c: "0 \<le> ?c" "?c < data_size st" by simp_all
  note fin = next_batch_slot(1) [OF ok nb b]
  show ?thesis
  proof (cases "0 \<le> ?U")
    case True
    then have U: "int (nat ?U) \<le> ?U" and U': "int (nat ?U) = ?U" by simp_all
    from slot_run [OF ok c U] show ?thesis
    proof (elim disjE exE conjE)
      assume "slot_steps st [0..<nat ?U] ?c ?U = ((?c + int (nat ?U)) mod data_size st, ?U)"
      with fin have "cursor st' ! b = (?c + int (nat ?U)) mod data_size st"
        "seq_lengths bt ! b = ?U" by auto
      with True U' show ?thesis by (simp add: max_def)
    next
      fix L assume L: "L < nat ?U"
        and "slot_steps st [0..<nat ?U] ?c ?U = ((?c + int L) mod data_size st, int L)"
      with fin have "cursor st' ! b = (?c + int L) mod data_size st"
        "seq_lengths bt ! b = int L" by auto
      with L True show ?thesis by (auto simp: max_def)
    qed
  next
    case False
    then have "nat ?U = 0" by simp
    with fin have "cursor st' ! b = ?c" "seq_lengths bt ! b = ?U" by auto
    with c False show ?thesis by (simp add: max_def)
  qed
qed

text \<open>
  Claim C4. For every valid construction (the table fits the configuration and the
  constructor returns an engine), every live cursor is an index of the table after
  construction and after any finite sequence of \<^verbatim>\<open>next_batch()\<close> and \<^verbatim>\<open>rewind()\<close> calls,
  none of which fails. Every advancement is taken modulo the size: a \<^verbatim>\<open>next_batch()\<close>
  call from any such state leaves the cursor of slot \<open>b\<close> at the old cursor plus the
  slot's sequence length (plus 0 when there are no unrollings), modulo the size, and
  \<^verbatim>\<open>rewind()\<close> puts the cursors back on \<open>init_cursor\<close>.
\<close>

theorem cursor_in_range:
  assumes f: "fs filename = Some d" and t: "table_ok d key target ni"
    and c: "construct fs filename key target ni bsz nu = Some (Inr st)"
  shows "(\<forall>c\<in>set (cursor st). 0 \<le> c \<and> c < data_size st) \<and>
         (\<forall>cs. \<exists>st'. run_calls cs st = Inr st' \<and> data_size st' = data_size st \<and>
            (\<forall>c\<in>set (cursor st'). 0 \<le> c \<and> c < data_size st') \<and>
            cursor (rewind st') = init_cursor st \<and>
            (\<exists>bt st''. next_batch st' = Inr (bt, st'')) \<and>
            (\<forall>bt st''. next_batch st' = Inr (bt, st'') \<longrightarrow>
               (\<forall>b<nat (batch_size st').
                  cursor st'' ! b =
                    (cursor st' ! b + max 0 (seq_lengths bt ! b)) mod data_size st' \<and>
                  max 0 (seq_lengths bt ! b) \<le> max 0 (num_unrollings st'))))"
proof -
  from construct_engine_ok [OF c f t] have ok: "engine_ok st" by simp
  then have 1: "\<forall>c\<in>set (cursor st). 0 \<le> c \<and> c < data_size st"
    unfolding engine_ok_def by blast
  have 2: "\<exists>st'. run_calls cs st = Inr st' \<and> data_size st' = data_size st \<and>
            (\<forall>c\<in>set (cursor st'). 0 \<le> c \<and> c < data_size st') \<and>
            cursor (rewind st') = init_cursor st \<and>
            (\<exists>bt st''. next_batch st' = Inr (bt, st'')) \<and>
            (\<forall>bt st''. next_batch st' = Inr (bt, st'') \<longrightarrow>
               (\<forall>b<nat (batch_size st').
                  cursor st'' ! b =
                    (cursor st' ! b + max 0 (seq_lengths bt ! b)) mod data_size st' \<and>
                  max 0 (seq_lengths bt ! b) \<le> max 0 (num_unrollings st')))" for cs
  proof -
    from run_calls_ok [OF ok, of cs] obtain st' where
      r: "run_calls cs st = Inr st'" and ok': "engine_ok st'" by blast
    from run_calls_frame [OF r] have fr: "st' = st\<lparr>cursor := cursor st'\<rparr>" .
    then have "data_size st' = data_size (st\<lparr>cursor := cursor st'\<rparr>)" by simp
    then have ds: "data_size st' = data_size st" by simp
    from fr have "init_cursor st' = init_cursor (st\<lparr>cursor := cursor st'\<rparr>)" by simp
    then have rw: "cursor (rewind st') = init_cursor st" by (simp add: rewind_def)
    from ok' have rg: "\<forall>c\<in>set (cursor st'). 0 \<le> c \<and> c < data_size st'"
      unfolding engine_ok_def by blast
    from next_batch_result [OF ok'] have ex: "\<exists>bt st''. next_batch st' = Inr (bt, st'')"
      by blast
    from r ds rg rw ex next_batch_cursor_move [OF ok'] show ?thesis by blast
  qed
  from 1 2 show ?thesis by blast
qed

lemma ex_table_ok: "table_ok ex_table ''ID'' ''YY'' 1"
  by code_simp

lemma ex_fs_file: "ex_fs ''data.dat'' = Some ex_table"
  by (simp add: ex_fs_def)

lemma ex_run_two: "run_calls [NextBatch, NextBatch] (ex_engine 0) = Inr (ex_engine 3)"
  by code_simp

lemma ex_next_batch3: "next_batch (ex_engine 3) = Inr (ex_batch3, ex_engine 0)"
  by code_simp

text \<open>On the example, after two batches the cursor is at 3; the third batch emits the two
  rows of entity B and the cursor wraps: \<open>(3 + 2) mod 5 = 0\<close>.\<close>

theorem cursor_in_range_witness:
  "ex_fs ''data.dat'' = Some ex_table \<and> table_ok ex_table ''ID'' ''YY'' 1 \<and>
   construct ex_fs ''data.dat'' ''ID'' ''YY'' 1 1 2 = Some (Inr (ex_engine 0)) \<and>
   run_calls [NextBatch, NextBatch] (ex_engine 0) = Inr (ex_engine 3) \<and>
   0 \<le> cursor (ex_engine 3) ! 0 \<and> cursor (ex_engine 3) ! 0 < data_size (ex_engine 3) \<and>
   next_batch (ex_engine 3) = Inr (ex_batch3, ex_engine 0) \<and>
   cursor (ex_engine 0) ! 0 =
     (cursor (ex_engine 3) ! 0 + max 0 (seq_lengths ex_batch3 ! 0)) mod data_size (ex_engine 3) \<and>
   cursor (ex_engine 3) ! 0 = 3 \<and> seq_lengths ex_batch3 ! 0 = 2 \<and>
   cursor (ex_engine 0) ! 0 = 0"
proof -
  from cursor_in_range
    [where fs = ex_fs and filename = "''data.dat''", OF ex_fs_file ex_table_ok ex_construct]
  have "\<exists>st'. run_calls [NextBatch, NextBatch] (ex_engine 0) = Inr st' \<and>
          (\<forall>c\<in>set (cursor st'). 0 \<le> c \<and> c < data_size st') \<and>
          (\<forall>bt st''. next_batch st' = Inr (bt, st'') \<longrightarrow>
             (\<forall>b<nat (batch_size st').
                cursor st'' ! b =
                  (cursor st' ! b + max 0 (seq_lengths bt ! b)) mod data_size st' \<and>
                max 0 (seq_lengths bt ! b) \<le> max 0 (num_unrollings st')))"
    by blast
  with ex_run_two have
    rg: "\<forall>c\<in>set (cursor (ex_engine 3)). 0 \<le> c \<and> c < data_size (ex_engine 3)"
    and mv: "\<forall>bt st''. next_batch (ex_engine 3) = Inr (bt, st'') \<longrightarrow>
             (\<forall>b<nat (batch_size (ex_engine 3)).
                cursor st'' ! b =
                  (cursor (ex_engine 3) ! b + max 0 (seq_lengths bt ! b))
                    mod data_size (ex_engine 3) \<and>
                max 0 (seq_lengths bt ! b) \<le> max 0 (num_unrollings (ex_engine 3)))"
    by auto
  have m: "cursor (ex_engine 3) ! 0 \<in> set (cursor (ex_engine 3))"
    and b: "0 < nat (batch_size (ex_engine 3))"
    by (simp_all add: ex_engine_def)
  from rg m have 1: "0 \<le> cursor (ex_engine 3) ! 0 \<and>
      cursor (ex_engine 3) ! 0 < data_size (ex_engine 3)" by blast
  from mv ex_next_batch3 b have 2: "cursor (ex_engine 0) ! 0 =
     (cursor (ex_engine 3) ! 0 + max 0 (seq_lengths ex_batch3 ! 0)) mod data_size (ex_engine 3)"
    by blast
  have 3: "cursor (ex_engine 3) ! 0 = 3" "seq_lengths ex_batch3 ! 0 = 2"
    "cursor (ex_engine 0) ! 0 = 0"
    by (simp_all add: ex_engine_def ex_batch3_def)
  from ex_fs_file ex_table_ok ex_construct ex_run_two ex_next_batch3 1 2 3
  show ?thesis by simp
qed

text \<open>
  Claim C5. For every valid engine, at any point of its life (after any sequence of
  calls), \<^verbatim>\<open>rewind()\<close> followed by \<open>n\<close> calls of \<^verbatim>\<open>next_batch()\<close> returns the same \<open>n\<close>
  batches, field for field, as the first \<open>n\<close> calls made right after construction.
\<close>

theorem rewind_replays:
  assumes f: "fs filename = Some d" and t: "table_ok d key target ni"
    and c: "construct fs filename key target ni bsz nu = Some (Inr st0)"
    and r: "run_calls cs st0 = Inr st"
  shows "\<exists>bts st'. next_batches n st0 = Inr (bts, st') \<and>
           next_batches n (rewind st) = Inr (bts, st') \<and> length bts = n"
proof -
  from construct_engine_ok [OF c f t] have ok: "engine_ok st0"
    and ci: "cursor st0 = init_cursor st0" by simp_all
  from run_calls_frame [OF r] have "st = st0\<lparr>cursor := cursor st\<rparr>" .
  then have "rewind st = rewind (st0\<lparr>cursor := cursor st\<rparr>)" by simp
  also have "\<dots> = st0\<lparr>cursor := init_cursor st0\<rparr>" by (simp add: rewind_def)
  also have "\<dots> = st0" using ci [symmetric] by simp
  finally have "rewind st = st0" .
  with next_batches_ok [OF ok, of n] show ?thesis by auto
qed

lemma ex_run_one: "run_calls [NextBatch] (ex_engine 0) = Inr (ex_engine 2)"
  by code_simp

lemma ex_next_batches: "next_batches 2 (ex_engine 0) = Inr ([ex_batch0, ex_batch], ex_engine 3)"
  by code_simp

theorem rewind_replays_witness:
  "ex_fs ''data.dat'' = Some ex_table \<and> table_ok ex_table ''ID'' ''YY'' 1 \<and>
   construct ex_fs ''data.dat'' ''ID'' ''YY'' 1 1 2 = Some (Inr (ex_engine 0)) \<and>
   run_calls [NextBatch] (ex_engine 0) = Inr (ex_engine 2) \<and>
   next_batches 2 (ex_engine 0) = Inr ([ex_batch0, ex_batch], ex_engine 3) \<and>
   next_batches 2 (rewind (ex_engine 2)) = Inr ([ex_batch0, ex_batch], ex_engine 3)"
proof -
  from rewind_replays
    [where fs = ex_fs and filename = "''data.dat''" and n = 2,
      OF ex_fs_file ex_table_ok ex_construct ex_run_one]
  have "next_batches 2 (rewind (ex_engine 2)) = next_batches 2 (ex_engine 0)"
    by auto
  with ex_fs_file ex_table_ok ex_construct ex_run_one ex_next_batches show ?thesis by simp
qed

subsection \<open>Termination of the alignment scan, divergence of the probe\<close>

lemma align_loop_terminates:
  assumes j: "index_of (columns d) kn = Some j" and sz: "sz = len d"
    and idx: "0 \<le> idx" "idx < sz"
    and n: "loc d ((idx + int n) mod sz) kn \<noteq> Inr key"
  shows "\<exists>i. align_loop d kn sz key idx = Some (Inr i)"
  using idx n
proof (induction n arbitrary: idx)
  case 0
  then have "loc d idx kn \<noteq> Inr key" by simp
  moreover from 0 j sz have "loc d idx kn = Inr (rows d ! nat idx ! j)"
    by (simp add: loc_in_range)
  ultimately show ?case by (subst align_loop.simps) auto
next
  case (Suc n)
  from Suc.prems j sz have l: "loc d idx kn = Inr (rows d ! nat idx ! j)"
    by (simp add: loc_in_range)
  show ?case
  proof (cases "rows d ! nat idx ! j = key")
    case False
    with l show ?thesis by (subst align_loop.simps) auto
  next
    case True
    from Suc.prems have s0: "0 < sz" by simp
    let ?i = "(idx + 1) mod sz"
    from s0 have r: "0 \<le> ?i" "?i < sz" by simp_all
    have "(?i + int n) mod sz = (idx + 1 + int n) mod sz" by (rule mod_add_left_eq)
    also have "idx + 1 + int n = idx + int (Suc n)" by simp
    finally have "loc d ((?i + int n) mod sz) kn \<noteq> Inr key" using Suc.prems(3) by simp
    from Suc.IH [OF r this] obtain i where "align_loop d kn sz key ?i = Some (Inr i)" ..
    with l True s0 show ?thesis by (subst align_loop.simps) auto
  qed
qed

lemma two_entities_other:
  assumes "two_entities d kn"
  shows "\<exists>j. index_of (columns d) kn = Some j \<and>
           (\<forall>key. \<exists>i. 0 \<le> i \<and> i < len d \<and> loc d i kn \<noteq> Inr key)"
proof -
  from assms obtain j r r' where j: "index_of (columns d) kn = Some j"
    and r: "r \<in> set (rows d)" "r' \<in> set (rows d)" "r ! j \<noteq> r' ! j"
    by (auto simp: two_entities_def split: option.splits)
  from r obtain a a' where a: "a < length (rows d)" "rows d ! a = r"
    and a': "a' < length (rows d)" "rows d ! a' = r'"
    by (auto simp: in_set_conv_nth)
  have "\<exists>i. 0 \<le> i \<and> i < len d \<and> loc d i kn \<noteq> Inr key" for key
  proof (cases "r ! j = key")
    case True
    with r(3) have "r' ! j \<noteq> key" by auto
    with a' j have "loc d (int a') kn \<noteq> Inr key" by (simp add: loc_def len_def)
    with a' show ?thesis by (intro exI [of _ "int a'"]) (simp add: len_def)
  next
    case False
    with a j have "loc d (int a) kn \<noteq> Inr key" by (simp add: loc_def len_def)
    with a show ?thesis by (intro exI [of _ "int a"]) (simp add: len_def)
  qed
  with j show ?thesis by blast
qed

lemma align_loop_two_entities:
  assumes te: "two_entities d kn" and idx: "0 \<le> idx" "idx < len d"
  shows "\<exists>i. align_loop d kn (len d) key idx = Some (Inr i)"
proof -
  from two_entities_other [OF te] obtain j i where
    j: "index_of (columns d) kn = Some j"
    and i: "0 \<le> i" "i < len d" "loc d i kn \<noteq> Inr key"
    by blast
  let ?n = "nat ((i - idx) mod len d)"
  from idx have n0: "0 < len d" by simp
  then have "int ?n = (i - idx) mod len d" by simp
  then have "(idx + int ?n) mod len d = (idx + (i - idx) mod len d) mod len d" by simp
  also have "\<dots> = (idx + (i - idx)) mod len d" by (rule mod_add_right_eq)
  also have "\<dots> = i" using i by simp
  finally have "loc d ((idx + int ?n) mod len d) kn \<noteq> Inr key" using i(3) by simp
  from align_loop_terminates [OF j refl idx this] show ?thesis .
qed

lemma align_all_terminates:
  assumes te: "two_entities d kn"
    and "\<forall>b\<in>set bs. b < length ic" and "\<forall>c\<in>set ic. 0 \<le> c \<and> c < len d"
  shows "\<exists>ic'. align_all d kn (len d) bs ic = Some (Inr ic')"
  using assms(2,3)
proof (induction bs arbitrary: ic)
  case Nil
  then show ?case by simp
next
  case (Cons b bs)
  from Cons.prems have bl: "b < length ic" by simp
  then have "ic ! b \<in> set ic" by simp
  with Cons.prems(2) have r: "0 \<le> ic ! b" "ic ! b < len d" by auto
  from two_entities_other [OF te] obtain j where j: "index_of (columns d) kn = Some j"
    by blast
  from r j have l: "loc d (ic ! b) kn = Inr (rows d ! nat (ic ! b) ! j)"
    by (simp add: loc_in_range)
  from align_loop_two_entities [OF te r] obtain i where
    al: "align_loop d kn (len d) (rows d ! nat (ic ! b) ! j) (ic ! b) = Some (Inr i)" ..
  from align_loop_result [OF al] have ir: "0 \<le> i \<and> i < len d" .
  let ?ic1 = "if b > 0 then ic[b := i] else ic"
  have 1: "\<forall>b\<in>set bs. b < length ?ic1" using Cons.prems(1) by simp
  have 2: "\<forall>c\<in>set ?ic1. 0 \<le> c \<and> c < len d"
  proof
    fix c assume "c \<in> set ?ic1"
    then have "c \<in> insert i (set ic)"
      using set_update_subset_insert [of ic b i] by (auto split: if_splits)
    with ir Cons.prems(2) show "0 \<le> c \<and> c < len d" by auto
  qed
  from Cons.IH [OF 1 2] obtain ic' where "align_all d kn (len d) bs ?ic1 = Some (Inr ic')" ..
  with bl l al show ?case by simp
qed

lemma next_batch_no_steps:
  assumes "cursor st = [0]" and "batch_size st = 1" and "num_unrollings st = 0"
  shows "\<exists>bt. next_batch st = Inr (bt, st)"
  using assms by (simp add: next_batch_def get_reset_flags_def py_range_def)

lemma calc_loop_diverges_aux:
  assumes "calc_loop end_idx st n = Some r"
  shows "\<not> (cursor st = [0] \<and> batch_size st = 1 \<and> num_unrollings st = 0 \<and> 0 < end_idx)"
  using assms
proof (induction rule: calc_loop.raw_induct[rotated 1, consumes 1])
  case (1 calc_loop' end_idx st n r)
  show ?case
  proof
    assume a: "cursor st = [0] \<and> batch_size st = 1 \<and> num_unrollings st = 0 \<and> 0 < end_idx"
    with next_batch_no_steps [of st] obtain bt where "next_batch st = Inr (bt, st)" by blast
    with a 1(2) have "calc_loop' end_idx st (n + 1) = Some r" by simp
    from 1(1) [OF this] a show False by simp
  qed
qed

lemma calc_loop_diverges:
  assumes "cursor st = [0]" and "batch_size st = 1" and "num_unrollings st = 0"
    and "0 < end_idx"
  shows "calc_loop end_idx st n = None"
  using calc_loop_diverges_aux [of end_idx st n] assms
  by (cases "calc_loop end_idx st n") auto

text \<open>
  Claim C9. For a table with at least 2 records and at least 2 distinct entities (and both
  named columns), construction with \<open>batch_size = 1\<close> and \<open>num_unrollings = 0\<close> does not
  return: the alignment scan returns, but a probing \<^verbatim>\<open>next_batch()\<close> makes no step and
  leaves slot 0 at index 0, below \<open>size - 1\<close>, so the loop of \<^verbatim>\<open>_calc_num_batches\<close> runs
  forever.
\<close>

theorem construct_zero_unrollings_diverges:
  assumes f: "fs filename = Some d" and tg: "target \<in> set (columns d)"
    and te: "two_entities d key" and n2: "2 \<le> len d"
  shows "align_all d key (len d) (py_range 1) [0] = Some (Inr [0]) \<and>
         construct fs filename key target ni 1 0 = None"
proof -
  from tg obtain j where j: "index_of (columns d) target = Some j"
    using index_of_mem by blast
  have pr: "py_range 1 = [0]" by (simp add: py_range_def)
  from n2 have "\<forall>c\<in>set [0::int]. 0 \<le> c \<and> c < len d" by simp
  from align_all_terminates [OF te _ this, of "[0]"] obtain ic where
    al: "align_all d key (len d) [0] [0] = Some (Inr ic)" by auto
  from align_all_result [OF al] have "length ic = 1" "ic ! 0 = 0" by simp_all
  then have ic: "ic = [0]" by (cases ic) auto
  let ?st = "\<lparr>num_inputs = ni, key_name = key, yval_name = target,
              factor_start_idx = int j + 1, num_classes = 2, num_unrollings = 0,
              batch_size = 1, data = d, data_size = len d,
              init_cursor = [0], cursor = [0], num_batches = None\<rparr>"
  from n2 have "calc_loop (len d - 1) ?st 0 = None"
    by (intro calc_loop_diverges) simp_all
  then have "calc_num_batches ?st = None"
    by (simp add: calc_num_batches_def rewind_def)
  with f j al ic pr show ?thesis
    by (simp add: construct_def)
qed

lemma ex_two_entities: "two_entities ex_table ''ID''"
  by code_simp

theorem construct_zero_unrollings_diverges_witness:
  "ex_fs ''data.dat'' = Some ex_table \<and> ''YY'' \<in> set (columns ex_table) \<and>
   two_entities ex_table ''ID'' \<and> 2 \<le> len ex_table \<and>
   construct ex_fs ''data.dat'' ''ID'' ''YY'' 1 1 0 = None"
proof -
  have c: "''YY'' \<in> set (columns ex_table)" and n: "2 \<le> len ex_table"
    by (simp_all add: ex_table_def len_def)
  from construct_zero_unrollings_diverges
    [where fs = ex_fs and filename = "''data.dat''" and ni = 1, OF ex_fs_file c ex_two_entities n]
  have "construct ex_fs ''data.dat'' ''ID'' ''YY'' 1 1 0 = None" by simp
  with ex_fs_file c ex_two_entities n show ?thesis by simp
qed

subsection \<open>The epoch-size estimate\<close>

lemma next_batch_advance:
  assumes ok: "engine_ok st" and U1: "1 \<le> num_unrollings st"
    and nb: "next_batch st = Inr (bt, st')" and b: "b < nat (batch_size st)"
  shows "\<exists>k. 1 \<le> k \<and> k \<le> num_unrollings st \<and>
           cursor st' ! b = (cursor st ! b + k) mod data_size st"
proof -
  let ?c = "cursor st ! b"
  let ?U = "num_unrollings st"
  from engine_ok_cursor_nth [OF ok b] have c: "0 \<le> ?c" "?c < data_size st" by simp_all
  from U1 have U: "int (nat ?U) \<le> ?U" and U': "int (nat ?U) = ?U" by simp_all
  note fin = next_batch_slot(1) [OF ok nb b]
  from slot_run [OF ok c U] show ?thesis
  proof (elim disjE exE conjE)
    assume "slot_steps st [0..<nat ?U] ?c ?U = ((?c + int (nat ?U)) mod data_size st, ?U)"
    with fin have "cursor st' ! b = (?c + int (nat ?U)) mod data_size st" by auto
    with U1 U' show ?thesis by (intro exI [of _ ?U]) simp
  next
    fix L assume L: "L < nat ?U" and cr: "crosses_at st ?c L"
      and "slot_steps st [0..<nat ?U] ?c ?U = ((?c + int L) mod data_size st, int L)"
    with fin have "cursor st' ! b = (?c + int L) mod data_size st" by auto
    moreover from cr have "0 < L" by (simp add: crosses_at_def)
    ultimately show ?thesis using L by (intro exI [of _ "int L"]) simp
  qed
qed

lemma calc_loop_terminates:
  assumes "engine_ok st" and "1 \<le> num_unrollings st" and "end_idx \<le> data_size st - 1"
  shows "\<exists>m st'. calc_loop end_idx st n = Some (Inr (m, st')) \<and> n \<le> m \<and>
           (n < m \<longleftrightarrow> hd (cursor st) < end_idx - num_unrollings st)"
  using assms
proof (induction "nat (end_idx - num_unrollings st - hd (cursor st))" arbitrary: st n
    rule: less_induct)
  case less
  let ?U = "num_unrollings st"
  from less.prems(1) have lc: "length (cursor st) = nat (batch_size st)"
    and b1: "1 \<le> batch_size st" by (simp_all add: engine_ok_def)
  then have ne: "cursor st \<noteq> []" and b0: "0 < nat (batch_size st)" by auto
  then have hd: "hd (cursor st) = cursor st ! 0" by (simp add: hd_conv_nth)
  show ?case
  proof (cases "hd (cursor st) < end_idx - ?U")
    case False
    with ne have "calc_loop end_idx st n = Some (Inr (n, st))"
      by (subst calc_loop.simps) simp
    with False show ?thesis by simp
  next
    case True
    from next_batch_result [OF less.prems(1)] obtain bt cur' where
      nb: "next_batch st = Inr (bt, st\<lparr>cursor := cur'\<rparr>)"
      and ok1: "engine_ok (st\<lparr>cursor := cur'\<rparr>)"
      by blast
    let ?st1 = "st\<lparr>cursor := cur'\<rparr>"
    from next_batch_advance [OF less.prems(1,2) nb b0] obtain k where
      k: "1 \<le> k" "k \<le> ?U" and c1: "cur' ! 0 = (cursor st ! 0 + k) mod data_size st"
      by auto
    from engine_ok_cursor_nth [OF less.prems(1) b0] have c0: "0 \<le> cursor st ! 0" by simp
    from True hd k less.prems(3) have "cursor st ! 0 + k < data_size st" by simp
    with c0 k c1 have c1': "cur' ! 0 = cursor st ! 0 + k" by simp
    from ok1 have "length cur' = nat (batch_size st)" by (simp add: engine_ok_def)
    with b0 have "cur' \<noteq> []" by auto
    then have hd1: "hd (cursor ?st1) = cur' ! 0" by (simp add: hd_conv_nth)
    have dec: "nat (end_idx - num_unrollings ?st1 - hd (cursor ?st1))
                 < nat (end_idx - ?U - hd (cursor st))"
      using True hd hd1 c1' k by simp
    have p2: "1 \<le> num_unrollings ?st1" "end_idx \<le> data_size ?st1 - 1"
      using less.prems(2,3) by simp_all
    from less.hyps [OF dec ok1 p2, of "n + 1"] obtain m st' where
      r: "calc_loop end_idx ?st1 (n + 1) = Some (Inr (m, st'))" and m: "n + 1 \<le> m"
      by blast
    from ne True nb r have "calc_loop end_idx st n = Some (Inr (m, st'))"
      by (subst calc_loop.simps) simp
    with m True show ?thesis by simp
  qed
qed

lemma segment_in_range:
  assumes n: "0 < (n::int)" and b: "1 \<le> b" and k: "int k < b"
  shows "0 \<le> int k * (n div b) \<and> int k * (n div b) < n"
proof -
  let ?q = "n div b"
  from n b have q0: "0 \<le> ?q" by (simp add: pos_imp_zdiv_nonneg_iff)
  have "n = b * ?q + n mod b" by simp
  moreover from b have "0 \<le> n mod b" by simp
  ultimately have bq: "b * ?q \<le> n" by linarith
  from k have "int k \<le> b - 1" by simp
  then have "int k * ?q \<le> (b - 1) * ?q" using q0 by (rule mult_right_mono)
  also have "\<dots> = b * ?q - ?q" by (simp add: algebra_simps)
  finally have le: "int k * ?q \<le> b * ?q - ?q" .
  show ?thesis
  proof (cases "?q = 0")
    case True
    with n show ?thesis by simp
  next
    case False
    with q0 have "0 < ?q" by simp
    with le bq q0 show ?thesis by simp
  qed
qed

lemma two_entities_nonempty: "two_entities d kn \<Longrightarrow> 0 < len d"
  using two_entities_other [of d kn] by force

text \<open>
  Claim C1, as the code has it. For a table that fits the configuration and has at least two
  distinct entities, with \<open>batch_size \<ge> 1\<close> and \<open>num_unrollings \<ge> 1\<close>, construction returns
  an engine whose \<^verbatim>\<open>num_batches\<close> is a number \<open>n \<ge> 0\<close>; it is positive exactly when
  \<open>num_unrollings\<close> is below the target boundary (the initial position of slot 1 if
  \<open>batch_size > 1\<close>, else \<open>size - 1\<close>), and 0 otherwise.
\<close>

theorem epoch_estimate_returns:
  assumes f: "fs filename = Some d" and t: "table_ok d key target ni"
    and te: "two_entities d key" and b1: "1 \<le> bsz" and u1: "1 \<le> nu"
  shows "\<exists>st n. construct fs filename key target ni bsz nu = Some (Inr st) \<and>
           num_batches st = Some n \<and> 0 \<le> n \<and>
           (0 < n \<longleftrightarrow> nu < (if 1 < bsz then init_cursor st ! 1 else data_size st - 1))"
proof -
  from t obtain j where j: "index_of (columns d) target = Some j"
    by (auto simp: table_ok_def split: option.splits)
  from two_entities_nonempty [OF te] have n0: "0 < len d" .
  let ?ic0 = "map (\<lambda>offset. int offset * (len d div bsz)) (py_range bsz)"
  have l0: "length ?ic0 = nat bsz" by (simp add: py_range_def)
  have i0: "?ic0 ! 0 = 0" using b1 by (simp add: py_range_def nth_map_upt)
  have z: "0 \<in> set (py_range bsz)" using b1 by (simp add: py_range_def)
  have r0: "\<forall>c\<in>set ?ic0. 0 \<le> c \<and> c < len d"
    using segment_in_range [OF n0 b1] by (auto simp: py_range_def)
  have bs: "\<forall>b\<in>set (py_range bsz). b < length ?ic0" by (simp add: py_range_def)
  from align_all_terminates [OF te bs r0] obtain ic where
    al: "align_all d key (len d) (py_range bsz) ?ic0 = Some (Inr ic)" ..
  from align_all_result [OF al] l0 i0 have
    len: "length ic = nat bsz"
    and pt: "\<forall>b<nat bsz. (b \<in> set (py_range bsz) \<and> 0 < b \<longrightarrow> 0 \<le> ic ! b \<and> ic ! b < len d) \<and>
                        (b \<notin> set (py_range bsz) \<or> b = 0 \<longrightarrow> ic ! b = ?ic0 ! b)"
    by simp_all
  from pt b1 i0 have ic0: "ic ! 0 = 0" by simp
  have r: "\<forall>c\<in>set ic. 0 \<le> c \<and> c < len d"
  proof
    fix c assume "c \<in> set ic"
    then obtain b where b: "b < nat bsz" "c = ic ! b"
      using len by (auto simp: in_set_conv_nth)
    show "0 \<le> c \<and> c < len d"
    proof (cases "b = 0")
      case True
      with b ic0 n0 show ?thesis by simp
    next
      case False
      with pt b show ?thesis by (simp add: py_range_def)
    qed
  qed
  let ?st = "\<lparr>num_inputs = ni, key_name = key, yval_name = target,
              factor_start_idx = int j + 1, num_classes = 2, num_unrollings = nu,
              batch_size = bsz, data = d, data_size = len d,
              init_cursor = ic, cursor = ic, num_batches = None\<rparr>"
  have ok: "engine_ok ?st"
    using t j n0 b1 len r by (simp add: engine_ok_def)
  let ?e = "if 1 < bsz then ic ! 1 else len d - 1"
  have e: "?e \<le> data_size ?st - 1"
  proof (cases "1 < bsz")
    case True
    with len have "ic ! 1 \<in> set ic" by simp
    with r True show ?thesis by auto
  next
    case False
    then show ?thesis by simp
  qed
  have u: "1 \<le> num_unrollings ?st" using u1 by simp
  from calc_loop_terminates [OF ok u e, of 0] obtain m st' where
    cl: "calc_loop ?e ?st 0 = Some (Inr (m, st'))" and m0: "0 \<le> m"
    and mp: "0 < m \<longleftrightarrow> hd (cursor ?st) < ?e - nu"
    by auto
  have rw: "rewind ?st = ?st" by (simp add: rewind_def)
  from len b1 have "ic \<noteq> []" by auto
  with ic0 have hd: "hd ic = 0" by (simp add: hd_conv_nth)
  from len b1 have l1: "1 < bsz \<Longrightarrow> \<not> length ic \<le> 1" by simp
  have "\<exists>st2. calc_num_batches ?st = Some (Inr (m, st2))"
    unfolding calc_num_batches_def Let_def rw using cl l1 by (cases "1 < bsz") simp_all
  then obtain st2 where cn: "calc_num_batches ?st = Some (Inr (m, st2))" ..
  from calc_num_batches_frame [OF cn] cn have cn': "calc_num_batches ?st = Some (Inr (m, ?st))"
    by simp
  have "construct fs filename key target ni bsz nu = Some (Inr (?st\<lparr>num_batches := Some m\<rparr>))"
    using f j b1 al cn' by (simp add: construct_def Let_def)
  moreover have "0 < m \<longleftrightarrow> nu < ?e" using mp hd by simp
  ultimately show ?thesis using m0
    by (intro exI [of _ "?st\<lparr>num_batches := Some m\<rparr>"] exI [of _ m]) simp
qed

theorem epoch_estimate_returns_witness:
  "ex_fs ''data.dat'' = Some ex_table \<and> table_ok ex_table ''ID'' ''YY'' 1 \<and>
   two_entities ex_table ''ID'' \<and> (1::int) \<le> 1 \<and> (1::int) \<le> 2 \<and>
   construct ex_fs ''data.dat'' ''ID'' ''YY'' 1 1 2 = Some (Inr (ex_engine 0)) \<and>
   num_batches (ex_engine 0) = Some 1 \<and> 2 < data_size (ex_engine 0) - 1"
proof -
  have b: "(1::int) \<le> 1" and u: "(1::int) \<le> 2" by simp_all
  from epoch_estimate_returns
    [where fs = ex_fs and filename = "''data.dat''", OF ex_fs_file ex_table_ok ex_two_entities b u]
  obtain st n where c: "construct ex_fs ''data.dat'' ''ID'' ''YY'' 1 1 2 = Some (Inr st)"
    and n: "num_batches st = Some n" "0 \<le> n"
    and p: "0 < n \<longleftrightarrow> 2 < (if (1::int) < 1 then init_cursor st ! 1 else data_size st - 1)"
    by blast
  from c ex_construct have st: "st = ex_engine 0" by simp
  with n have "n = 1" by (simp add: ex_engine_def)
  with p st have "2 < data_size (ex_engine 0) - 1" by simp
  moreover have "num_batches (ex_engine 0) = Some 1" by (simp add: ex_engine_def)
  ultimately show ?thesis using ex_fs_file ex_table_ok ex_two_entities ex_construct by simp
qed

text \<open>Claim C1 as stated fails, the estimate is not always positive: on the example
  (two entities) with one slot and four unrollings
  the loop of \<^verbatim>\<open>_calc_num_batches\<close> is not entered (\<open>0 < 4 - 4\<close> fails), and
  \<^verbatim>\<open>num_batches\<close> is 0.\<close>

theorem epoch_estimate_zero:
  "two_entities ex_table ''ID'' \<and> (1::int) \<le> 1 \<and>
   map_option (map_sum id num_batches) (construct ex_fs ''data.dat'' ''ID'' ''YY'' 1 1 4)
     = Some (Inr (Some 0))"
  by code_simp

subsection \<open>Reset flags of a batch\<close>

lemma ex_next_batch0: "next_batch (ex_engine 0) = Inr (ex_batch0, ex_engine 2)"
  by code_simp

lemma ex_engine_ok3: "engine_ok (ex_engine 3)"
  by code_simp

text \<open>
  Claim C6. A \<^verbatim>\<open>next_batch()\<close> call on a valid engine returns a batch, and in every
  \<^verbatim>\<open>next_batch()\<close> call that returns a batch there is one reset flag per slot and the
  flag of slot \<open>b\<close> is 0 exactly when, at the cursor positions the call starts from, the
  slot's cursor is 0 or the key at index - 1 differs from the key at the cursor;
  otherwise it is 1.
\<close>

theorem reset_flag_value:
  "(engine_ok st \<longrightarrow> (\<exists>bt st'. next_batch st = Inr (bt, st'))) \<and>
   (next_batch st = Inr (bt, st') \<longrightarrow>
      length (reset_flags bt) = nat (batch_size st) \<and>
      (\<forall>b. int b < batch_size st \<longrightarrow>
         reset_flags bt ! b = (if at_entity_start st (cursor st ! b) then 0 else 1)))"
proof (intro conjI impI)
  assume "engine_ok st"
  from next_batch_result [OF this] show "\<exists>bt st'. next_batch st = Inr (bt, st')" by blast
next
  assume nb: "next_batch st = Inr (bt, st')"
  then have g: "get_reset_flags st = Inr (reset_flags bt)"
    by (rule next_batch_reset_flags)
  then have l: "reset_flags_loop st (py_range (batch_size st)) (replicate (nat (batch_size st)) 1)
      = Inr (reset_flags bt)"
    by (simp add: get_reset_flags_def split: if_splits)
  have "\<forall>b\<in>set (py_range (batch_size st)). b < length (replicate (nat (batch_size st)) (1::rat))"
    by (simp add: py_range_def)
  from reset_flags_loop_result [OF l this]
  have r: "length (reset_flags bt) = nat (batch_size st)"
    "\<forall>b<nat (batch_size st). reset_flags bt ! b =
        (if b \<in> set (py_range (batch_size st)) \<and> at_entity_start st (cursor st ! b) then 0
         else replicate (nat (batch_size st)) 1 ! b)"
    by simp_all
  show "length (reset_flags bt) = nat (batch_size st)" by (rule r(1))
  show "\<forall>b. int b < batch_size st \<longrightarrow>
         reset_flags bt ! b = (if at_entity_start st (cursor st ! b) then 0 else 1)"
  proof (intro allI impI)
    fix b assume "int b < batch_size st"
    then have "b < nat (batch_size st)" by simp
    with r(2) show "reset_flags bt ! b = (if at_entity_start st (cursor st ! b) then 0 else 1)"
      by (simp add: py_range_def)
  qed
qed

text \<open>On the example: at cursor 3, the first row of entity B, and at cursor 0 the flag is 0;
  at cursor 2, inside entity A, it is 1.\<close>

theorem reset_flag_value_witness:
  "engine_ok (ex_engine 3) \<and>
   next_batch (ex_engine 3) = Inr (ex_batch3, ex_engine 0) \<and>
   at_entity_start (ex_engine 3) (cursor (ex_engine 3) ! 0) \<and>
   length (reset_flags ex_batch3) = 1 \<and> reset_flags ex_batch3 ! 0 = 0 \<and>
   next_batch (ex_engine 0) = Inr (ex_batch0, ex_engine 2) \<and>
   at_entity_start (ex_engine 0) (cursor (ex_engine 0) ! 0) \<and>
   reset_flags ex_batch0 ! 0 = 0 \<and>
   next_batch (ex_engine 2) = Inr (ex_batch, ex_engine 3) \<and>
   \<not> at_entity_start (ex_engine 2) (cursor (ex_engine 2) ! 0) \<and>
   reset_flags ex_batch ! 0 = 1"
proof -
  have b: "int 0 < batch_size (ex_engine 3)" "int 0 < batch_size (ex_engine 0)"
    "int 0 < batch_size (ex_engine 2)" "nat (batch_size (ex_engine 3)) = 1"
    by (simp_all add: ex_engine_def)
  have s3: "at_entity_start (ex_engine 3) (cursor (ex_engine 3) ! 0)"
    and s0: "at_entity_start (ex_engine 0) (cursor (ex_engine 0) ! 0)"
    and s2: "\<not> at_entity_start (ex_engine 2) (cursor (ex_engine 2) ! 0)"
    by code_simp+
  from reset_flag_value [of "ex_engine 3" ex_batch3 "ex_engine 0"] ex_next_batch3 b s3
  have 3: "length (reset_flags ex_batch3) = 1" "reset_flags ex_batch3 ! 0 = 0"
    by simp_all
  from reset_flag_value [of "ex_engine 0" ex_batch0 "ex_engine 2"] ex_next_batch0 b s0
  have 0: "reset_flags ex_batch0 ! 0 = 0" by simp
  from reset_flag_value [of "ex_engine 2" ex_batch "ex_engine 3"] ex_next_batch b s2
  have 2: "reset_flags ex_batch ! 0 = 1" by simp
  from ex_engine_ok3 ex_next_batch3 ex_next_batch0 ex_next_batch s3 s0 s2 3 0 2
  show ?thesis by simp
qed

end
